theory Spec2Isabelle
  imports Main "HOL-Library.AList" "HOL-Library.Multiset"
begin

section \<open>Numbers, dates and date strings\<close>

text \<open>
  A number that the program computes from dates is an integer or \<^verbatim>\<open>NaN\<close>: it is an
  \<open>int option\<close>, with \<open>None\<close> for \<^verbatim>\<open>NaN\<close>. A \<^verbatim>\<open>Date\<close> object is its time value, the
  milliseconds since the epoch, or \<open>None\<close> for \<^verbatim>\<open>Invalid Date\<close>. Every comparison in which
  one side is \<^verbatim>\<open>NaN\<close> is false.
\<close>

type_synonym number = "int option"
type_synonym Date = "int option"

definition num_lt :: "number \<Rightarrow> number \<Rightarrow> bool" where
  "num_lt a b = (case a of None \<Rightarrow> False | Some x \<Rightarrow> (case b of None \<Rightarrow> False | Some y \<Rightarrow> x < y))"

definition num_gt :: "number \<Rightarrow> number \<Rightarrow> bool" where
  "num_gt a b = (case a of None \<Rightarrow> False | Some x \<Rightarrow> (case b of None \<Rightarrow> False | Some y \<Rightarrow> x > y))"

definition num_le :: "number \<Rightarrow> number \<Rightarrow> bool" where
  "num_le a b = (case a of None \<Rightarrow> False | Some x \<Rightarrow> (case b of None \<Rightarrow> False | Some y \<Rightarrow> x \<le> y))"

definition num_ge :: "number \<Rightarrow> number \<Rightarrow> bool" where
  "num_ge a b = (case a of None \<Rightarrow> False | Some x \<Rightarrow> (case b of None \<Rightarrow> False | Some y \<Rightarrow> x \<ge> y))"

definition num_minus :: "number \<Rightarrow> number \<Rightarrow> number" where
  "num_minus a b = (case a of None \<Rightarrow> None | Some x \<Rightarrow> (case b of None \<Rightarrow> None | Some y \<Rightarrow> Some (x - y)))"

text \<open>
  \<^verbatim>\<open>Math.round(x / w)\<close> on integers \<open>x\<close> and \<open>w \<noteq> 0\<close>: the quotient rounded to the
  nearest integer, halves upwards; and the same on a number that may be \<^verbatim>\<open>NaN\<close>.
  Integers are taken small enough to be exact as JavaScript numbers.
\<close>

definition Math_round_quot :: "int \<Rightarrow> int \<Rightarrow> int" where
  "Math_round_quot x w = (2 * x + w) div (2 * w)"

definition Math_round_num :: "number \<Rightarrow> int \<Rightarrow> number" where
  "Math_round_num x w = map_option (\<lambda>v. Math_round_quot v w) x"

text \<open>
  Calendar days are numbered from 1970-01-01 (day 0); \<open>ymd\<close> is the number of a day of
  the proleptic Gregorian calendar, the calendar of \<^verbatim>\<open>Date\<close>.
\<close>

definition ymd :: "int \<Rightarrow> int \<Rightarrow> int \<Rightarrow> int" where
  "ymd y m d =
     (let y' = (if m \<le> 2 then y - 1 else y);
          era = y' div 400;
          yoe = y' - era * 400;
          mp = (m + 9) mod 12;
          doy = (153 * mp + 2) div 5 + d - 1;
          doe = yoe * 365 + yoe div 4 - yoe div 100 + doy
      in era * 146097 + doe - 719468)"

definition msPerDay :: int where
  "msPerDay = 1000 * 60 * 60 * 24"

text \<open>
  The date strings that occur:
  \<^item> \<open>ISO d\<close> is the string \<^verbatim>\<open>YYYY-MM-DD\<close>, with a four-digit year, that names day \<open>d\<close>;
    there is one for each day of the years 0000 to 9999 (\<open>wellformed\<close>);
  \<^item> \<open>Printed d\<close> is what \<^verbatim>\<open>fmt\<close> prints for a day \<open>d\<close> whose year is not between
    1000 and 9999: the year is printed as the number it is, neither padded nor cut to
    four digits (\<^verbatim>\<open>999-12-28\<close>, \<^verbatim>\<open>10000-01-10\<close>);
  \<^item> \<open>NaN_NaN_NaN\<close> is what \<^verbatim>\<open>fmt\<close> prints for \<^verbatim>\<open>Invalid Date\<close>.

  Only the strings of the first kind are date-time strings of the language once
  \<^verbatim>\<open>T00:00:00\<close> is appended; \<^verbatim>\<open>parseDate\<close> reads the others as \<^verbatim>\<open>Invalid Date\<close>.
\<close>

datatype dateStr = ISO int | Printed int | NaN_NaN_NaN

definition wellformed :: "dateStr \<Rightarrow> bool" where
  "wellformed s =
     (case s of
        ISO d \<Rightarrow> ymd 0 1 1 \<le> d \<and> d \<le> ymd 9999 12 31
      | Printed d \<Rightarrow> False
      | NaN_NaN_NaN \<Rightarrow> False)"

definition print_day :: "int \<Rightarrow> dateStr" where
  "print_day d = (if ymd 1000 1 1 \<le> d \<and> d \<le> ymd 9999 12 31 then ISO d else Printed d)"

text \<open>
  The local time zone of the host: \<open>offU z t\<close> is the offset of local time from UTC, in
  milliseconds, in force at the instant \<open>t\<close>, and \<open>offL z l\<close> is the offset by which the
  host reads the local time \<open>l\<close>. In a zone of fixed offset both are constant.
\<close>

record zone =
  offU :: "int \<Rightarrow> int"
  offL :: "int \<Rightarrow> int"

definition fixed_zone :: "int \<Rightarrow> zone" where
  "fixed_zone tz = \<lparr>offU = (\<lambda>t. tz), offL = (\<lambda>l. tz)\<rparr>"

text \<open>A time value beyond 100 000 000 days from the epoch makes an \<^verbatim>\<open>Invalid Date\<close>.\<close>

definition TimeClip :: "int \<Rightarrow> Date" where
  "TimeClip t = (if \<bar>t\<bar> \<le> 8640000000000000 then Some t else None)"

text \<open>\<^verbatim>\<open>new Date(d + "T00:00:00")\<close>: local midnight of the day.\<close>

definition parseDate :: "zone \<Rightarrow> dateStr \<Rightarrow> Date" where
  "parseDate z s =
     (case s of
        ISO d \<Rightarrow> if wellformed (ISO d)
                 then TimeClip (d * msPerDay - offL z (d * msPerDay)) else None
      | Printed d \<Rightarrow> None
      | NaN_NaN_NaN \<Rightarrow> None)"

text \<open>\<^verbatim>\<open>fmt\<close> prints the local calendar day of an instant.\<close>

definition fmt :: "zone \<Rightarrow> Date \<Rightarrow> dateStr" where
  "fmt z dt =
     (case dt of
        None \<Rightarrow> NaN_NaN_NaN
      | Some t \<Rightarrow> print_day ((t + offU z t) div msPerDay))"

text \<open>
  \<^verbatim>\<open>setDate(getDate() + n)\<close> on a copy: the local day moves by \<open>n\<close>, the local time
  of day stays, and the result is read back as a local time.
\<close>

definition addDays :: "zone \<Rightarrow> Date \<Rightarrow> number \<Rightarrow> Date" where
  "addDays z dt n =
     (case dt of
        None \<Rightarrow> None
      | Some t \<Rightarrow>
          (case n of
             None \<Rightarrow> None
           | Some k \<Rightarrow>
               (let l = t + offU z t;
                    l' = (l div msPerDay + k) * msPerDay + l mod msPerDay
                in TimeClip (l' - offL z l'))))"

definition diffInDays :: "zone \<Rightarrow> Date \<Rightarrow> Date \<Rightarrow> number" where
  "diffInDays z a b =
     (let ms = num_minus (parseDate z (fmt z a)) (parseDate z (fmt z b))
      in Math_round_num ms (1000 * 60 * 60 * 24))"

definition clampDateStr :: "zone \<Rightarrow> dateStr \<Rightarrow> dateStr \<Rightarrow> dateStr \<Rightarrow> dateStr" where
  "clampDateStr z s minS maxS =
     (let d = parseDate z s; lo = parseDate z minS; hi = parseDate z maxS
      in if num_lt d lo then minS else if num_gt d hi then maxS else s)"

section \<open>Tasks, drag state, zoom\<close>

record Task =
  id_t :: string
  name_t :: string
  start_t :: dateStr
  end_t :: dateStr
  color_t :: "string option"
  deps_t :: "string list"





datatype error = TypeError

section \<open>JavaScript maps\<close>

text \<open>
  A \<^verbatim>\<open>Map\<close> is an association list with unique keys in insertion order:
  \<^verbatim>\<open>set\<close> is \<open>AList.update\<close> (an existing key keeps its place, a new one goes to the
  end), \<^verbatim>\<open>get\<close> is \<open>map_of\<close>, and the constructor inserts the entries one by one.
\<close>

definition new_Map :: "(string \<times> 'v) list \<Rightarrow> (string \<times> 'v) list" where
  "new_Map entries = fold (\<lambda>e m. AList.update (fst e) (snd e) m) entries []"

section \<open>Topological sort\<close>

text \<open>\<^verbatim>\<open>indeg.get(n) || 0\<close>\<close>

definition get0 :: "(string \<times> int) list \<Rightarrow> string \<Rightarrow> int" where
  "get0 indeg n = (case map_of indeg n of None \<Rightarrow> 0 | Some v \<Rightarrow> v)"

text \<open>\<^verbatim>\<open>graph.get(x) || []\<close>\<close>

definition succs :: "(string \<times> string list) list \<Rightarrow> string \<Rightarrow> string list" where
  "succs graph x = (case map_of graph x of None \<Rightarrow> [] | Some ns \<Rightarrow> ns)"

text \<open>The body of the inner \<^verbatim>\<open>t.deps.forEach\<close> for task id \<open>tid\<close> and entry \<open>p\<close>.\<close>

definition add_dep ::
  "string \<Rightarrow> string \<Rightarrow> (string \<times> string list) list \<times> (string \<times> int) list
     \<Rightarrow> (string \<times> string list) list \<times> (string \<times> int) list" where
  "add_dep tid p st =
     (case map_of (fst st) p of
        None \<Rightarrow> st
      | Some ns \<Rightarrow> (AList.update p (ns @ [tid]) (fst st),
                   AList.update tid (get0 (snd st) tid + 1) (snd st)))"

definition build ::
  "Task list \<Rightarrow> (string \<times> string list) list \<times> (string \<times> int) list" where
  "build tasks =
     (let ids = map id_t tasks;
          graph = new_Map (map (\<lambda>i. (i, [])) ids);
          indeg = new_Map (map (\<lambda>i. (i, 0)) ids)
      in fold (\<lambda>t st. fold (add_dep (id_t t)) (deps_t t) st) tasks (graph, indeg))"

text \<open>The body of the \<^verbatim>\<open>forEach\<close> over the successors of the dequeued node.\<close>

definition relax ::
  "string \<Rightarrow> (string \<times> int) list \<times> string list \<Rightarrow> (string \<times> int) list \<times> string list" where
  "relax n st =
     (let indeg = AList.update n (get0 (fst st) n - 1) (fst st)
      in (indeg, if map_of indeg n = Some 0 then snd st @ [n] else snd st))"

definition relax_all ::
  "(string \<times> string list) list \<Rightarrow> string \<Rightarrow> (string \<times> int) list \<Rightarrow> string list
     \<Rightarrow> (string \<times> int) list \<times> string list" where
  "relax_all graph x indeg q = fold relax (succs graph x) (indeg, q)"

definition npos :: "(string \<times> int) list \<Rightarrow> nat" where
  "npos indeg = length (filter (\<lambda>e. 0 < snd e) indeg)"

lemma npos_update:
  "npos (AList.update n (get0 indeg n - 1) indeg) + (if get0 indeg n = 1 then 1 else 0)
     \<le> npos indeg"
proof (induction indeg)
  case Nil
  then show ?case by (simp add: npos_def get0_def)
next
  case (Cons e indeg)
  then show ?case by (cases e) (auto simp: npos_def get0_def)
qed

lemma relax_measure:
  "length (snd (relax n st)) + npos (fst (relax n st)) \<le> length (snd st) + npos (fst st)"
proof -
  have "map_of (AList.update n (get0 (fst st) n - 1) (fst st)) n = Some 0
          \<longleftrightarrow> get0 (fst st) n = 1"
    by (auto simp: update_conv')
  then show ?thesis
    using npos_update [of n "fst st"]
    by (cases "get0 (fst st) n = 1") (simp_all add: relax_def Let_def)
qed

lemma fold_relax_measure:
  "length (snd (fold relax ns st)) + npos (fst (fold relax ns st))
     \<le> length (snd st) + npos (fst st)"
proof (induction ns arbitrary: st)
  case Nil
  then show ?case by simp
next
  case (Cons n ns)
  have "length (snd (fold relax ns (relax n st))) + npos (fst (fold relax ns (relax n st)))
          \<le> length (snd (relax n st)) + npos (fst (relax n st))"
    by (rule Cons.IH)
  also have "\<dots> \<le> length (snd st) + npos (fst st)"
    by (rule relax_measure)
  finally show ?case by simp
qed

function kahn_loop ::
  "(string \<times> string list) list \<Rightarrow> (string \<times> int) list \<Rightarrow> string list \<Rightarrow> string list
     \<Rightarrow> string list" where
  "kahn_loop graph indeg [] out = out"
| "kahn_loop graph indeg (x # q) out =
     kahn_loop graph (fst (relax_all graph x indeg q)) (snd (relax_all graph x indeg q))
       (out @ [x])"
  by pat_completeness auto
termination
proof (relation "measure (\<lambda>(graph, indeg, q, out). length q + npos indeg)")
  show "wf (measure (\<lambda>(graph, indeg, q, out). length q + npos indeg))"
    by simp
next
  fix graph :: "(string \<times> string list) list" and indeg x q and out :: "string list"
  show "((graph, fst (relax_all graph x indeg q), snd (relax_all graph x indeg q), out @ [x]),
         (graph, indeg, x # q, out))
        \<in> measure (\<lambda>(graph, indeg, q, out). length q + npos indeg)"
    using fold_relax_measure [of "succs graph x" "(indeg, q)"]
    by (simp add: relax_all_def)
qed

definition topoSort :: "Task list \<Rightarrow> string list" where
  "topoSort tasks =
     (let ids = map id_t tasks;
          st = build tasks;
          graph = fst st;
          indeg = snd st;
          q = map fst (filter (\<lambda>e. snd e = 0) indeg);
          out = kahn_loop graph indeg q []
      in if length out = length ids then out else ids)"

section \<open>The visible window and the coordinate mapping\<close>

text \<open>
  \<^verbatim>\<open>[minDateStr, maxDateStr]\<close> is recomputed from the task list at every render; \<open>now\<close>
  is the time value of \<^verbatim>\<open>new Date()\<close>, the reading of the clock.
\<close>

definition visibleRange :: "zone \<Rightarrow> int \<Rightarrow> Task list \<Rightarrow> dateStr \<times> dateStr" where
  "visibleRange z now tasks =
     (case tasks of
        [] \<Rightarrow> (fmt z (Some now), fmt z (addDays z (Some now) (Some 30)))
      | t0 # _ \<Rightarrow>
          (let mn = fold (\<lambda>t acc. if num_lt (parseDate z (start_t t)) acc
                                  then parseDate z (start_t t) else acc)
                      tasks (parseDate z (start_t t0));
               mx = fold (\<lambda>t acc. if num_gt (parseDate z (end_t t)) acc
                                  then parseDate z (end_t t) else acc)
                      tasks (parseDate z (end_t t0))
           in (fmt z (addDays z mn (Some (- 7))), fmt z (addDays z mx (Some 21)))))"

definition minDateStr :: "zone \<Rightarrow> int \<Rightarrow> Task list \<Rightarrow> dateStr" where
  "minDateStr z now tasks = fst (visibleRange z now tasks)"

definition maxDateStr :: "zone \<Rightarrow> int \<Rightarrow> Task list \<Rightarrow> dateStr" where
  "maxDateStr z now tasks = snd (visibleRange z now tasks)"



section \<open>Violation detection\<close>

definition latestEnd_violations :: "zone \<Rightarrow> (string \<times> Task) list \<Rightarrow> Task \<Rightarrow> Date" where
  "latestEnd_violations z idToTask t =
     fold (\<lambda>pid acc.
             case map_of idToTask pid of
               None \<Rightarrow> acc
             | Some p \<Rightarrow> (let pend = parseDate z (end_t p)
                          in if num_gt pend acc then pend else acc))
       (deps_t t) (Some 0)"

definition violations :: "zone \<Rightarrow> Task list \<Rightarrow> string set" where
  "violations z tasks =
     (let idToTask = new_Map (map (\<lambda>t. (id_t t, t)) tasks)
      in fold (\<lambda>t m.
                 let latestEnd = latestEnd_violations z idToTask t
                 in if num_gt latestEnd (Some 0) \<and> num_lt (parseDate z (start_t t)) latestEnd
                    then insert (id_t t) m else m)
           tasks {})"

section \<open>Dragging\<close>






section \<open>Dependency toggle\<close>

definition toggleDep :: "string \<Rightarrow> string \<Rightarrow> Task list \<Rightarrow> Task list" where
  "toggleDep from to tasks =
     (if from = to then tasks
      else map (\<lambda>t.
             if id_t t \<noteq> to then t
             else (let has = (from \<in> set (deps_t t))
                   in t\<lparr>deps_t := (if has then filter (\<lambda>d. d \<noteq> from) (deps_t t)
                                    else deps_t t @ [from])\<rparr>)) tasks)"


section \<open>Auto-schedule\<close>

text \<open>
  \<^verbatim>\<open>next\<close> is the list of copied task objects; \<^verbatim>\<open>nextMap\<close> maps an id to the object
  of \<^verbatim>\<open>next\<close> that holds it, represented by the object's position in \<^verbatim>\<open>next\<close>, so
  that an assignment to the object's fields is an update of the list at that position.
\<close>

definition latestEnd_schedule ::
  "zone \<Rightarrow> (string \<times> nat) list \<Rightarrow> (string \<times> Task) list \<Rightarrow> Task list \<Rightarrow> Task \<Rightarrow> Date" where
  "latestEnd_schedule z nextMap idToTask nxt t =
     fold (\<lambda>pid acc.
             case (case map_of nextMap pid of
                     Some j \<Rightarrow> Some (nxt ! j)
                   | None \<Rightarrow> map_of idToTask pid) of
               None \<Rightarrow> acc
             | Some p \<Rightarrow> (let pend = parseDate z (end_t p)
                          in if num_gt pend acc then pend else acc))
       (deps_t t) (parseDate z (start_t t))"

definition schedule_step ::
  "zone \<Rightarrow> dateStr \<Rightarrow> dateStr \<Rightarrow> (string \<times> nat) list \<Rightarrow> (string \<times> Task) list
     \<Rightarrow> string \<Rightarrow> error + Task list \<Rightarrow> error + Task list" where
  "schedule_step z minS maxS nextMap idToTask i st =
     (case st of
        Inl e \<Rightarrow> Inl e
      | Inr nxt \<Rightarrow>
          (case map_of nextMap i of
             None \<Rightarrow> Inl TypeError
           | Some k \<Rightarrow>
               (let t = nxt ! k;
                    duration = diffInDays z (parseDate z (end_t t)) (parseDate z (start_t t));
                    latestEnd = latestEnd_schedule z nextMap idToTask nxt t
                in if num_gt latestEnd (parseDate z (start_t t))
                   then (let ns = fmt z (addDays z latestEnd (Some 0));
                             ne = fmt z (addDays z latestEnd duration)
                         in Inr (nxt[k := t\<lparr>start_t := clampDateStr z ns minS maxS,
                                           end_t := clampDateStr z ne minS maxS\<rparr>]))
                   else Inr nxt)))"

definition autoSchedule :: "zone \<Rightarrow> dateStr \<Rightarrow> dateStr \<Rightarrow> Task list \<Rightarrow> error + Task list" where
  "autoSchedule z minS maxS tasks =
     (let order = topoSort tasks;
          idToTask = new_Map (map (\<lambda>t. (id_t t, t)) tasks);
          nextMap = new_Map (zip (map id_t tasks) [0..<length tasks])
      in fold (schedule_step z minS maxS nextMap idToTask) order (Inr tasks))"

text \<open>The command of the component: the window is the one derived from the task list.\<close>

definition runAutoSchedule :: "zone \<Rightarrow> int \<Rightarrow> Task list \<Rightarrow> error + Task list" where
  "runAutoSchedule z now tasks =
     autoSchedule z (minDateStr z now tasks) (maxDateStr z now tasks) tasks"

section \<open>Definitions used to state the properties\<close>

text \<open>A task depends on itself when its own id is among its \<^verbatim>\<open>deps\<close>.\<close>

definition selfDep :: "Task \<Rightarrow> bool" where
  "selfDep t = (id_t t \<in> set (deps_t t))"

text \<open>
  The calendar day that a date string names (a string printed for \<^verbatim>\<open>Invalid Date\<close>
  names none; it is given day 0).
\<close>

definition day_of :: "dateStr \<Rightarrow> int" where
  "day_of s = (case s of ISO d \<Rightarrow> d | Printed d \<Rightarrow> d | NaN_NaN_NaN \<Rightarrow> 0)"

text \<open>A date string with a year from 1000 to 9999, the strings that \<^verbatim>\<open>fmt\<close> prints
  in the form \<^verbatim>\<open>YYYY-MM-DD\<close>.\<close>

definition four_digit :: "dateStr \<Rightarrow> bool" where
  "four_digit s =
     (case s of
        ISO d \<Rightarrow> ymd 1000 1 1 \<le> d \<and> d \<le> ymd 9999 12 31
      | Printed d \<Rightarrow> False
      | NaN_NaN_NaN \<Rightarrow> False)"

text \<open>Both dates of the task are well-formed; the task starts no later than it ends.\<close>

definition wellformed_task :: "Task \<Rightarrow> bool" where
  "wellformed_task t = (wellformed (start_t t) \<and> wellformed (end_t t))"


text \<open>
  The window of a non-empty list as the specification words it: the least start among
  the tasks that have no predecessors, minus 7 days, and the greatest end plus 21 days.
\<close>

definition spec_visibleRange :: "Task list \<Rightarrow> dateStr \<times> dateStr" where
  "spec_visibleRange tasks =
     (print_day (Min (set (map (\<lambda>t. day_of (start_t t))
                            (filter (\<lambda>t. deps_t t = []) tasks))) - 7),
      print_day (Max (set (map (\<lambda>t. day_of (end_t t)) tasks)) + 21))"

text \<open>
  The violation set as the specification words it: the ids of the tasks that have at
  least one resolvable predecessor (a task of the list whose id is an entry of
  \<^verbatim>\<open>deps\<close>) and start strictly before the greatest end among those predecessors.
\<close>

definition resolvable_preds :: "Task list \<Rightarrow> Task \<Rightarrow> Task list" where
  "resolvable_preds tasks t = filter (\<lambda>p. id_t p \<in> set (deps_t t)) tasks"

definition spec_violated :: "Task list \<Rightarrow> Task \<Rightarrow> bool" where
  "spec_violated tasks t =
     (resolvable_preds tasks t \<noteq> []
      \<and> day_of (start_t t)
          < Max (set (map (\<lambda>p. day_of (end_t p)) (resolvable_preds tasks t))))"

definition spec_violations :: "Task list \<Rightarrow> string set" where
  "spec_violations tasks = set (map id_t (filter (spec_violated tasks) tasks))"




text \<open>
  The resolvable-predecessor graph: an edge from \<open>p\<close> to the id of task \<open>t\<close> for every
  entry \<open>p\<close> of the \<^verbatim>\<open>deps\<close> of \<open>t\<close> that is the id of a task of the list. The
  list keeps the edges in the order in which \<^verbatim>\<open>topoSort\<close> meets them, with repetitions.
\<close>

definition edge_list :: "Task list \<Rightarrow> (string \<times> string) list" where
  "edge_list tasks =
     concat (map (\<lambda>t. map (\<lambda>p. (p, id_t t))
                        (filter (\<lambda>p. p \<in> set (map id_t tasks)) (deps_t t))) tasks)"

definition edges :: "Task list \<Rightarrow> (string \<times> string) set" where
  "edges tasks = set (edge_list tasks)"

text \<open>The position of the first occurrence of \<open>x\<close> in \<open>xs\<close> (the length, when there is none).\<close>

definition index_of :: "'a list \<Rightarrow> 'a \<Rightarrow> nat" where
  "index_of xs x = length (takeWhile (\<lambda>y. y \<noteq> x) xs)"


section \<open>Auxiliary definitions for the proofs\<close>

text \<open>The ids that one pass over the successors \<open>ns\<close> appends to the queue.\<close>

fun pushed :: "(string \<Rightarrow> int) \<Rightarrow> string list \<Rightarrow> string list" where
  "pushed D [] = []"
| "pushed D (n # ns) = (if D n = 1 then [n] else []) @ pushed (D(n := D n - 1)) ns"

text \<open>The number of edges into \<open>n\<close> whose source is not in \<open>S\<close>.\<close>

definition cnt :: "(string \<times> string) list \<Rightarrow> string set \<Rightarrow> string \<Rightarrow> nat" where
  "cnt es S n = length (filter (\<lambda>e. snd e = n \<and> fst e \<notin> S) es)"

text \<open>The invariant of the loop of \<^verbatim>\<open>topoSort\<close>, at the test of the \<^verbatim>\<open>while\<close>.\<close>

definition kahn_inv ::
  "(string \<times> string) list \<Rightarrow> string set \<Rightarrow> (string \<times> int) list \<Rightarrow> string list
     \<Rightarrow> string list \<Rightarrow> bool" where
  "kahn_inv es V indeg q out \<longleftrightarrow>
     distinct (out @ q) \<and> set (out @ q) \<subseteq> V
     \<and> (\<forall>n. get0 indeg n = int (cnt es (set out) n))
     \<and> (\<forall>n\<in>V. n \<in> set (out @ q) \<longleftrightarrow> cnt es (set out) n = 0)
     \<and> (\<forall>e\<in>set es. snd e \<in> set out \<longrightarrow>
           fst e \<in> set out \<and> index_of out (fst e) < index_of out (snd e))"

definition graph_ok ::
  "(string \<times> string) list \<Rightarrow> string set \<Rightarrow> (string \<times> string list) list \<Rightarrow> bool" where
  "graph_ok es V graph \<longleftrightarrow>
     (\<forall>e\<in>set es. fst e \<in> V \<and> snd e \<in> V)
     \<and> (\<forall>x. succs graph x = map snd (filter (\<lambda>e. fst e = x) es))"

text \<open>The state of the two maps after the edges \<open>es\<close> have been entered.\<close>

definition build_inv ::
  "string set \<Rightarrow> (string \<times> string) list
     \<Rightarrow> (string \<times> string list) list \<times> (string \<times> int) list \<Rightarrow> bool" where
  "build_inv K es st \<longleftrightarrow>
     fst ` set (fst st) = K \<and> distinct (map fst (snd st)) \<and> fst ` set (snd st) = K
     \<and> (\<forall>x. succs (fst st) x = map snd (filter (\<lambda>e. fst e = x) es))
     \<and> (\<forall>n. get0 (snd st) n = int (length (filter (\<lambda>e. snd e = n) es)))"


text \<open>The two maps of \<^verbatim>\<open>autoSchedule\<close>, and its look-up of a predecessor id.\<close>

definition nextMap_of :: "Task list \<Rightarrow> (string \<times> nat) list" where
  "nextMap_of tasks = new_Map (zip (map id_t tasks) [0..<length tasks])"

definition idToTask_of :: "Task list \<Rightarrow> (string \<times> Task) list" where
  "idToTask_of tasks = new_Map (map (\<lambda>t. (id_t t, t)) tasks)"

definition look :: "Task list \<Rightarrow> Task list \<Rightarrow> string \<Rightarrow> Task option" where
  "look tasks nxt pid =
     (case map_of (nextMap_of tasks) pid of
        Some j \<Rightarrow> Some (nxt ! j)
      | None \<Rightarrow> map_of (idToTask_of tasks) pid)"

text \<open>The \<^verbatim>\<open>latestEnd\<close> of \<^verbatim>\<open>autoSchedule\<close>, over a look-up of the predecessors.\<close>

definition latest :: "zone \<Rightarrow> (string \<Rightarrow> Task option) \<Rightarrow> Task \<Rightarrow> Date" where
  "latest z lk t =
     fold (\<lambda>pid acc.
             case lk pid of
               None \<Rightarrow> acc
             | Some p \<Rightarrow> (let pend = parseDate z (end_t p)
                          in if num_gt pend acc then pend else acc))
       (deps_t t) (parseDate z (start_t t))"

text \<open>
  The task at position \<open>k\<close>, if its start can be read, starts no earlier than each of
  its resolvable predecessors ends, as far as their ends can be read.
\<close>

definition settled :: "zone \<Rightarrow> Task list \<Rightarrow> nat \<Rightarrow> bool" where
  "settled z nxt k \<longleftrightarrow>
     (\<forall>s. parseDate z (start_t (nxt ! k)) = Some s \<longrightarrow>
        (\<forall>pid\<in>set (deps_t (nxt ! k)). \<forall>j<length nxt.
           id_t (nxt ! j) = pid \<longrightarrow>
             (\<forall>e. parseDate z (end_t (nxt ! j)) = Some e \<longrightarrow> e \<le> s)))"

text \<open>
  Every start that can be read is no earlier than the start of the window, and every end
  that can be read no later than its end, where these can be read.
\<close>

definition bounds_inv :: "zone \<Rightarrow> dateStr \<Rightarrow> dateStr \<Rightarrow> Task list \<Rightarrow> bool" where
  "bounds_inv z minS maxS nxt \<longleftrightarrow>
     (\<forall>a. parseDate z minS = Some a \<longrightarrow>
        (\<forall>t\<in>set nxt. \<forall>s. parseDate z (start_t t) = Some s \<longrightarrow> a \<le> s))
     \<and> (\<forall>b. parseDate z maxS = Some b \<longrightarrow>
        (\<forall>t\<in>set nxt. \<forall>e. parseDate z (end_t t) = Some e \<longrightarrow> e \<le> b))"

text \<open>The start of the task, where both can be read, is not after its end.\<close>

definition not_inverted :: "zone \<Rightarrow> Task \<Rightarrow> bool" where
  "not_inverted z t \<longleftrightarrow>
     (\<forall>s e. parseDate z (start_t t) = Some s \<longrightarrow> parseDate z (end_t t) = Some e \<longrightarrow> s \<le> e)"

text \<open>
  The invariant of the \<^verbatim>\<open>forEach\<close> of \<^verbatim>\<open>autoSchedule\<close> after the ids \<open>dn\<close>
  have been processed.
\<close>

definition sched_inv ::
  "zone \<Rightarrow> Task list \<Rightarrow> dateStr \<Rightarrow> dateStr \<Rightarrow> string list \<Rightarrow> Task list \<Rightarrow> bool" where
  "sched_inv z tasks minS maxS dn nxt \<longleftrightarrow>
     length nxt = length tasks \<and> map id_t nxt = map id_t tasks
     \<and> map deps_t nxt = map deps_t tasks
     \<and> (\<forall>k<length tasks. id_t (tasks ! k) \<notin> set dn \<longrightarrow> nxt ! k = tasks ! k)
     \<and> (\<forall>k<length tasks. id_t (tasks ! k) \<in> set dn \<longrightarrow> settled z nxt k)
     \<and> bounds_inv z minS maxS nxt"









section \<open>Dates in a time zone of fixed offset\<close>

lemma msPerDay_pos: "0 < msPerDay"
  by (simp add: msPerDay_def)

lemma num_lt_simps [simp]:
  "num_lt (Some x) (Some y) \<longleftrightarrow> x < y" "num_lt None b = False" "num_lt a None = False"
  by (simp_all add: num_lt_def split: option.splits)

lemma num_gt_simps [simp]:
  "num_gt (Some x) (Some y) \<longleftrightarrow> x > y" "num_gt None b = False" "num_gt a None = False"
  by (simp_all add: num_gt_def split: option.splits)

lemma num_le_simps [simp]:
  "num_le (Some x) (Some y) \<longleftrightarrow> x \<le> y" "num_le None b = False" "num_le a None = False"
  by (simp_all add: num_le_def split: option.splits)

lemma num_ge_simps [simp]:
  "num_ge (Some x) (Some y) \<longleftrightarrow> x \<ge> y" "num_ge None b = False" "num_ge a None = False"
  by (simp_all add: num_ge_def split: option.splits)

lemma TimeClip_Some: "TimeClip t = Some t' \<Longrightarrow> t' = t \<and> \<bar>t\<bar> \<le> 8640000000000000"
  by (simp add: TimeClip_def split: if_splits)

lemma ymd_bounds:
  "ymd 0 1 1 = - 719528" "ymd 1000 1 1 = - 354285" "ymd 9999 12 31 = 2932896"
  by (simp_all add: ymd_def)

lemma wellformed_ISO: "wellformed (ISO d) \<longleftrightarrow> - 719528 \<le> d \<and> d \<le> 2932896"
  by (simp add: wellformed_def ymd_bounds)

lemma four_digit_ISO: "four_digit (ISO d) \<longleftrightarrow> - 354285 \<le> d \<and> d \<le> 2932896"
  by (simp add: four_digit_def ymd_bounds)


lemma print_day_ISO: "- 354285 \<le> d \<Longrightarrow> d \<le> 2932896 \<Longrightarrow> print_day d = ISO d"
  by (simp add: print_day_def ymd_bounds)

lemma print_day_eq_ISO: "print_day d = ISO d' \<Longrightarrow> d' = d \<and> - 354285 \<le> d \<and> d \<le> 2932896"
  by (simp add: print_day_def ymd_bounds split: if_splits)

lemma day_of_print_day [simp]: "day_of (print_day d) = d"
  by (simp add: print_day_def day_of_def)

lemma parseDate_fixed_Some:
  assumes "parseDate (fixed_zone tz) s = Some t"
  shows "\<exists>d. s = ISO d \<and> wellformed (ISO d) \<and> t = d * msPerDay - tz
            \<and> \<bar>t\<bar> \<le> 8640000000000000"
  using assms
  by (cases s) (auto simp: parseDate_def fixed_zone_def TimeClip_def split: if_splits)

lemma midnight_in_range:
  assumes "- 1000000 \<le> d" "d \<le> 3000000" "\<bar>tz\<bar> \<le> msPerDay"
  shows "\<bar>d * msPerDay - tz\<bar> \<le> 8640000000000000"
  using assms unfolding msPerDay_def by (simp add: abs_le_iff)

lemma parseDate_fixed_ISO:
  assumes "wellformed (ISO d)" "\<bar>tz\<bar> \<le> msPerDay"
  shows "parseDate (fixed_zone tz) (ISO d) = Some (d * msPerDay - tz)"
  using assms midnight_in_range [of d tz]
  by (simp add: parseDate_def fixed_zone_def TimeClip_def wellformed_ISO)

lemma fmt_fixed: "fmt (fixed_zone tz) (Some t) = print_day ((t + tz) div msPerDay)"
  by (simp add: fmt_def fixed_zone_def)

lemma fmt_None [simp]: "fmt z None = NaN_NaN_NaN"
  by (simp add: fmt_def)

lemma addDays_fixed:
  "addDays (fixed_zone tz) (Some t) (Some k) = TimeClip (t + k * msPerDay)"
proof -
  have "((t + tz) div msPerDay + k) * msPerDay + (t + tz) mod msPerDay - tz
          = t + k * msPerDay"
    by (simp add: algebra_simps)
  then show ?thesis
    by (simp add: addDays_def fixed_zone_def Let_def)
qed

lemma addDays_None [simp]: "addDays z None n = None" "addDays z d None = None"
  by (simp_all add: addDays_def split: option.splits)

lemma parseDate_unreadable [simp]:
  "parseDate z (Printed d) = None" "parseDate z NaN_NaN_NaN = None"
  by (simp_all add: parseDate_def)

lemma fmt_midnight:
  "fmt (fixed_zone tz) (Some (d * msPerDay - tz)) = print_day d"
  using msPerDay_pos by (simp add: fmt_fixed)

lemma Math_round_quot_mult: "0 < w \<Longrightarrow> Math_round_quot (k * w) w = k"
proof -
  assume w: "0 < w"
  have "(2 * (k * w) + w) div (2 * w) = (w + k * (2 * w)) div (2 * w)"
    by (simp add: algebra_simps)
  also have "\<dots> = w div (2 * w) + k"
    using w by (subst div_mult_self1) simp_all
  also have "w div (2 * w) = 0"
    using w by simp
  finally show ?thesis by (simp add: Math_round_quot_def)
qed


text \<open>The difference in days of two local midnights of four-digit years.\<close>

lemma diffInDays_four_digit:
  assumes tz: "\<bar>tz\<bar> \<le> msPerDay" and a: "four_digit (ISO a)" and b: "four_digit (ISO b)"
  shows "diffInDays (fixed_zone tz) (parseDate (fixed_zone tz) (ISO a))
           (parseDate (fixed_zone tz) (ISO b)) = Some (a - b)"
proof -
  have wa: "wellformed (ISO a)" and wb: "wellformed (ISO b)"
    using a b by (simp_all add: four_digit_ISO wellformed_ISO)
  have pa: "print_day a = ISO a" and pb: "print_day b = ISO b"
    using a b by (simp_all add: four_digit_ISO print_day_ISO)
  have "a * msPerDay - tz - (b * msPerDay - tz) = (a - b) * msPerDay"
    by (simp add: algebra_simps)
  moreover have "Math_round_quot ((a - b) * msPerDay) msPerDay = a - b"
    by (rule Math_round_quot_mult) (rule msPerDay_pos)
  ultimately have "Math_round_quot (a * msPerDay - tz - (b * msPerDay - tz)) (1000 * 60 * 60 * 24)
      = a - b"
    by (simp add: msPerDay_def)
  then show ?thesis
    by (simp add: diffInDays_def Let_def parseDate_fixed_ISO [OF wa tz]
        parseDate_fixed_ISO [OF wb tz] fmt_midnight pa pb num_minus_def Math_round_num_def)
qed


section \<open>The coordinate mapping\<close>




section \<open>The visible window\<close>

text \<open>The two \<^verbatim>\<open>reduce\<close> calls of the window, on arbitrary date strings.\<close>

lemma fold_min_Some:
  assumes "fold (\<lambda>t acc. if num_lt (parseDate z (start_t t)) acc
                          then parseDate z (start_t t) else acc) ts acc = Some m"
  shows "(\<exists>a. acc = Some a \<and> m \<le> a)
         \<and> (\<forall>t\<in>set ts. \<forall>s. parseDate z (start_t t) = Some s \<longrightarrow> m \<le> s)"
  using assms
proof (induction ts arbitrary: acc)
  case Nil
  then show ?case by simp
next
  case (Cons t ts)
  let ?acc = "if num_lt (parseDate z (start_t t)) acc then parseDate z (start_t t) else acc"
  from Cons.prems have "fold (\<lambda>t acc. if num_lt (parseDate z (start_t t)) acc
                          then parseDate z (start_t t) else acc) ts ?acc = Some m"
    by simp
  from Cons.IH [OF this] obtain a where a: "?acc = Some a" "m \<le> a"
    and r: "\<forall>t\<in>set ts. \<forall>s. parseDate z (start_t t) = Some s \<longrightarrow> m \<le> s"
    by blast
  from a obtain a0 where a0: "acc = Some a0" "a \<le> a0"
    by (cases acc; cases "parseDate z (start_t t)") (auto split: if_splits)
  have "m \<le> s" if "parseDate z (start_t t) = Some s" for s
    using a a0 that by (auto split: if_splits)
  then show ?case using a a0 r by auto
qed

lemma fold_max_Some:
  assumes "fold (\<lambda>t acc. if num_gt (parseDate z (end_t t)) acc
                          then parseDate z (end_t t) else acc) ts acc = Some m"
  shows "(\<exists>a. acc = Some a \<and> a \<le> m)
         \<and> (\<forall>t\<in>set ts. \<forall>e. parseDate z (end_t t) = Some e \<longrightarrow> e \<le> m)"
  using assms
proof (induction ts arbitrary: acc)
  case Nil
  then show ?case by simp
next
  case (Cons t ts)
  let ?acc = "if num_gt (parseDate z (end_t t)) acc then parseDate z (end_t t) else acc"
  from Cons.prems have "fold (\<lambda>t acc. if num_gt (parseDate z (end_t t)) acc
                          then parseDate z (end_t t) else acc) ts ?acc = Some m"
    by simp
  from Cons.IH [OF this] obtain a where a: "?acc = Some a" "a \<le> m"
    and r: "\<forall>t\<in>set ts. \<forall>e. parseDate z (end_t t) = Some e \<longrightarrow> e \<le> m"
    by blast
  from a obtain a0 where a0: "acc = Some a0" "a0 \<le> a"
    by (cases acc; cases "parseDate z (end_t t)") (auto split: if_splits)
  have "e \<le> m" if "parseDate z (end_t t) = Some e" for e
    using a a0 that by (auto split: if_splits)
  then show ?case using a a0 r by auto
qed

text \<open>
  Where the start of the window can be read, it lies at least 7 days before every
  start that can be read; where its end can be read, it lies at least 20 days after
  every end that can be read.
\<close>

lemma minDateStr_lower:
  assumes p: "parseDate (fixed_zone tz) (minDateStr (fixed_zone tz) now tasks) = Some a"
    and t: "t \<in> set tasks" and s: "parseDate (fixed_zone tz) (start_t t) = Some s"
  shows "a + 7 * msPerDay \<le> s"
proof -
  let ?z = "fixed_zone tz"
  from t obtain t0 ts where ts: "tasks = t0 # ts" by (cases tasks) auto
  let ?mn = "fold (\<lambda>t acc. if num_lt (parseDate ?z (start_t t)) acc
                             then parseDate ?z (start_t t) else acc)
               tasks (parseDate ?z (start_t t0))"
  have m: "minDateStr ?z now tasks = fmt ?z (addDays ?z ?mn (Some (- 7)))"
    by (simp add: minDateStr_def visibleRange_def ts Let_def)
  obtain mn where mn: "?mn = Some mn"
    using p unfolding m by (cases ?mn) simp_all
  obtain c where c: "addDays ?z ?mn (Some (- 7)) = Some c"
    using p unfolding m by (cases "addDays ?z ?mn (Some (- 7))") simp_all
  have cm: "c = mn - 7 * msPerDay"
    using c unfolding mn addDays_fixed by (auto dest: TimeClip_Some)
  from p obtain d where d: "fmt ?z (Some c) = ISO d" "a = d * msPerDay - tz"
    unfolding m c by (auto dest: parseDate_fixed_Some)
  then have "d = (c + tz) div msPerDay"
    unfolding fmt_fixed by (auto dest: print_day_eq_ISO)
  then have "d * msPerDay \<le> c + tz"
    using msPerDay_pos by (simp add: algebra_simps) (metis mult.commute pos_mod_sign
        add_diff_cancel_left' diff_ge_0_iff_ge minus_mult_div_eq_mod)
  then have "a \<le> mn - 7 * msPerDay" using d cm by simp
  moreover have "mn \<le> s"
    using fold_min_Some [OF mn] t s by blast
  ultimately show ?thesis by simp
qed

lemma maxDateStr_upper:
  assumes p: "parseDate (fixed_zone tz) (maxDateStr (fixed_zone tz) now tasks) = Some b"
    and t: "t \<in> set tasks" and e: "parseDate (fixed_zone tz) (end_t t) = Some e"
  shows "e + 20 * msPerDay \<le> b"
proof -
  let ?z = "fixed_zone tz"
  from t obtain t0 ts where ts: "tasks = t0 # ts" by (cases tasks) auto
  let ?mx = "fold (\<lambda>t acc. if num_gt (parseDate ?z (end_t t)) acc
                             then parseDate ?z (end_t t) else acc)
               tasks (parseDate ?z (end_t t0))"
  have m: "maxDateStr ?z now tasks = fmt ?z (addDays ?z ?mx (Some 21))"
    by (simp add: maxDateStr_def visibleRange_def ts Let_def)
  obtain mx where mx: "?mx = Some mx"
    using p unfolding m by (cases ?mx) simp_all
  obtain c where c: "addDays ?z ?mx (Some 21) = Some c"
    using p unfolding m by (cases "addDays ?z ?mx (Some 21)") simp_all
  have cm: "c = mx + 21 * msPerDay"
    using c unfolding mx addDays_fixed by (auto dest: TimeClip_Some)
  from p obtain d where d: "fmt ?z (Some c) = ISO d" "b = d * msPerDay - tz"
    unfolding m c by (auto dest: parseDate_fixed_Some)
  then have "d = (c + tz) div msPerDay"
    unfolding fmt_fixed by (auto dest: print_day_eq_ISO)
  then have "c + tz < d * msPerDay + msPerDay"
    using msPerDay_pos
    by (metis add.commute mult.commute pos_mod_bound mult_div_mod_eq add_less_cancel_left)
  then have "mx + 20 * msPerDay \<le> b" using d cm by simp
  moreover have "e \<le> mx"
    using fold_max_Some [OF mx] t e by blast
  ultimately show ?thesis by simp
qed


text \<open>The window of a list of well-formed dates.\<close>

lemma wellformed_day_of:
  "wellformed s \<Longrightarrow> s = ISO (day_of s) \<and> - 719528 \<le> day_of s \<and> day_of s \<le> 2932896"
  by (cases s) (simp_all add: wellformed_def day_of_def ymd_bounds)

lemma parseDate_wellformed:
  assumes "\<bar>tz\<bar> \<le> msPerDay" "wellformed s"
  shows "parseDate (fixed_zone tz) s = Some (day_of s * msPerDay - tz)"
proof -
  from wellformed_day_of [OF assms(2)] have s: "s = ISO (day_of s)" by simp
  have "parseDate (fixed_zone tz) (ISO (day_of s)) = Some (day_of s * msPerDay - tz)"
    using assms s by (intro parseDate_fixed_ISO) simp_all
  then show ?thesis using s by simp
qed

lemma midnight_less_iff: "a * msPerDay - tz < b * msPerDay - tz \<longleftrightarrow> a < b"
  using msPerDay_pos by simp


lemma fold_min_wellformed:
  assumes tz: "\<bar>tz\<bar> \<le> msPerDay" and wf: "\<forall>t\<in>set ts. wellformed (start_t t)"
  shows "fold (\<lambda>t acc. if num_lt (parseDate (fixed_zone tz) (start_t t)) acc
                         then parseDate (fixed_zone tz) (start_t t) else acc)
           ts (Some (a * msPerDay - tz))
         = Some (Min (insert a ((\<lambda>t. day_of (start_t t)) ` set ts)) * msPerDay - tz)"
  using wf
proof (induction ts arbitrary: a)
  case Nil
  then show ?case by simp
next
  case (Cons t ts)
  let ?d = "day_of (start_t t)"
  have p: "parseDate (fixed_zone tz) (start_t t) = Some (?d * msPerDay - tz)"
    using Cons.prems by (intro parseDate_wellformed [OF tz]) simp
  have "(if num_lt (parseDate (fixed_zone tz) (start_t t)) (Some (a * msPerDay - tz))
         then parseDate (fixed_zone tz) (start_t t) else Some (a * msPerDay - tz))
        = Some (min ?d a * msPerDay - tz)"
    unfolding p by (simp add: midnight_less_iff min_def)
  moreover have "Min (insert (min ?d a) ((\<lambda>t. day_of (start_t t)) ` set ts))
                   = Min (insert a (insert ?d ((\<lambda>t. day_of (start_t t)) ` set ts)))"
    by (cases "set ts = {}") (simp_all add: min.commute min.left_commute)
  moreover have "\<forall>t\<in>set ts. wellformed (start_t t)" using Cons.prems by simp
  ultimately show ?case by (simp add: Cons.IH)
qed

lemma fold_max_wellformed:
  assumes tz: "\<bar>tz\<bar> \<le> msPerDay" and wf: "\<forall>t\<in>set ts. wellformed (end_t t)"
  shows "fold (\<lambda>t acc. if num_gt (parseDate (fixed_zone tz) (end_t t)) acc
                         then parseDate (fixed_zone tz) (end_t t) else acc)
           ts (Some (a * msPerDay - tz))
         = Some (Max (insert a ((\<lambda>t. day_of (end_t t)) ` set ts)) * msPerDay - tz)"
  using wf
proof (induction ts arbitrary: a)
  case Nil
  then show ?case by simp
next
  case (Cons t ts)
  let ?d = "day_of (end_t t)"
  have p: "parseDate (fixed_zone tz) (end_t t) = Some (?d * msPerDay - tz)"
    using Cons.prems by (intro parseDate_wellformed [OF tz]) simp
  have "(if num_gt (parseDate (fixed_zone tz) (end_t t)) (Some (a * msPerDay - tz))
         then parseDate (fixed_zone tz) (end_t t) else Some (a * msPerDay - tz))
        = Some (max ?d a * msPerDay - tz)"
    unfolding p by (simp add: midnight_less_iff max_def)
  moreover have "Max (insert (max ?d a) ((\<lambda>t. day_of (end_t t)) ` set ts))
                   = Max (insert a (insert ?d ((\<lambda>t. day_of (end_t t)) ` set ts)))"
    by (cases "set ts = {}") (simp_all add: max.commute max.left_commute)
  moreover have "\<forall>t\<in>set ts. wellformed (end_t t)" using Cons.prems by simp
  ultimately show ?case by (simp add: Cons.IH)
qed

lemma addDays_midnight:
  assumes "\<bar>tz\<bar> \<le> msPerDay" "- 1000000 \<le> d + k" "d + k \<le> 3000000"
  shows "fmt (fixed_zone tz) (addDays (fixed_zone tz) (Some (d * msPerDay - tz)) (Some k))
           = print_day (d + k)"
proof -
  have e: "d * msPerDay - tz + k * msPerDay = (d + k) * msPerDay - tz"
    by (simp add: algebra_simps)
  have "\<bar>(d + k) * msPerDay - tz\<bar> \<le> 8640000000000000"
    using assms unfolding msPerDay_def by (simp add: abs_le_iff)
  then show ?thesis
    unfolding addDays_fixed e by (simp add: TimeClip_def fmt_midnight)
qed

lemma visibleRange_wellformed:
  assumes tz: "\<bar>tz\<bar> \<le> msPerDay" and ne: "tasks \<noteq> []"
    and wf: "\<forall>t\<in>set tasks. wellformed_task t"
  shows "visibleRange (fixed_zone tz) now tasks
           = (print_day (Min ((\<lambda>t. day_of (start_t t)) ` set tasks) - 7),
              print_day (Max ((\<lambda>t. day_of (end_t t)) ` set tasks) + 21))"
proof -
  from ne obtain t0 ts where ts: "tasks = t0 # ts" by (cases tasks) auto
  let ?S = "(\<lambda>t. day_of (start_t t)) ` set tasks"
  let ?E = "(\<lambda>t. day_of (end_t t)) ` set tasks"
  have ws: "\<forall>t\<in>set tasks. wellformed (start_t t)" and we: "\<forall>t\<in>set tasks. wellformed (end_t t)"
    using wf by (simp_all add: wellformed_task_def)
  have p0: "parseDate (fixed_zone tz) (start_t t0) = Some (day_of (start_t t0) * msPerDay - tz)"
    using ws ts by (intro parseDate_wellformed [OF tz]) simp
  have q0: "parseDate (fixed_zone tz) (end_t t0) = Some (day_of (end_t t0) * msPerDay - tz)"
    using we ts by (intro parseDate_wellformed [OF tz]) simp
  have i0: "insert (day_of (start_t t0)) ?S = ?S" "insert (day_of (end_t t0)) ?E = ?E"
    using ts by auto
  have mn: "fold (\<lambda>t acc. if num_lt (parseDate (fixed_zone tz) (start_t t)) acc
                         then parseDate (fixed_zone tz) (start_t t) else acc)
           tasks (parseDate (fixed_zone tz) (start_t t0)) = Some (Min ?S * msPerDay - tz)"
    unfolding p0 fold_min_wellformed [OF tz ws] i0 ..
  have mx: "fold (\<lambda>t acc. if num_gt (parseDate (fixed_zone tz) (end_t t)) acc
                         then parseDate (fixed_zone tz) (end_t t) else acc)
           tasks (parseDate (fixed_zone tz) (end_t t0)) = Some (Max ?E * msPerDay - tz)"
    unfolding q0 fold_max_wellformed [OF tz we] i0 ..
  have "Min ?S \<in> ?S" using ne by (intro Min_in) simp_all
  then obtain t1 where "t1 \<in> set tasks" "Min ?S = day_of (start_t t1)" by auto
  then have b1: "- 719528 \<le> Min ?S" "Min ?S \<le> 2932896"
    using ws wellformed_day_of [of "start_t t1"] by simp_all
  have "Max ?E \<in> ?E" using ne by (intro Max_in) simp_all
  then obtain t2 where "t2 \<in> set tasks" "Max ?E = day_of (end_t t2)" by auto
  then have b2: "- 719528 \<le> Max ?E" "Max ?E \<le> 2932896"
    using we wellformed_day_of [of "end_t t2"] by simp_all
  have f1: "fmt (fixed_zone tz) (addDays (fixed_zone tz) (Some (Min ?S * msPerDay - tz))
              (Some (- 7))) = print_day (Min ?S + - 7)"
    using b1 by (intro addDays_midnight [OF tz]) simp_all
  have f2: "fmt (fixed_zone tz) (addDays (fixed_zone tz) (Some (Max ?E * msPerDay - tz))
              (Some 21)) = print_day (Max ?E + 21)"
    using b2 by (intro addDays_midnight [OF tz]) simp_all
  have "visibleRange (fixed_zone tz) now tasks
          = (fmt (fixed_zone tz) (addDays (fixed_zone tz) (Some (Min ?S * msPerDay - tz))
              (Some (- 7))),
             fmt (fixed_zone tz) (addDays (fixed_zone tz) (Some (Max ?E * msPerDay - tz))
              (Some 21)))"
    using mn mx unfolding ts by (simp add: visibleRange_def Let_def del: fold_simps)
  then show ?thesis unfolding f1 f2 by simp
qed

lemma visibleRange_Nil:
  assumes "\<bar>now\<bar> + 30 * msPerDay \<le> 8640000000000000"
  shows "visibleRange (fixed_zone tz) now []
           = (fmt (fixed_zone tz) (Some now),
              print_day (day_of (fmt (fixed_zone tz) (Some now)) + 30))"
proof -
  have "\<bar>now + 30 * msPerDay\<bar> \<le> 8640000000000000"
    using assms msPerDay_pos by arith
  then have "addDays (fixed_zone tz) (Some now) (Some 30) = Some (now + 30 * msPerDay)"
    by (simp add: addDays_fixed TimeClip_def)
  moreover have "(now + 30 * msPerDay + tz) div msPerDay = (now + tz) div msPerDay + 30"
  proof -
    have "now + 30 * msPerDay + tz = now + tz + 30 * msPerDay" by simp
    then show ?thesis
      using msPerDay_pos by (simp only: div_mult_self1 div_mult_self2 div_mult_self3)
  qed
  ultimately show ?thesis
    by (simp add: visibleRange_def fmt_fixed)
qed

text \<open>
  C9, as the specification states it, fails: the window starts 7 days before the least
  start of \<^emph>\<open>all\<close> tasks, whether they have predecessors or not. Task \<open>Z\<close> below
  depends on \<open>X\<close> and starts before it; the window starts 7 days before \<open>Z\<close>
  (2024-01-08), not 7 days before the predecessor-free \<open>X\<close> (2024-01-25).
\<close>

theorem visibleRange_predecessor_free_counterexample:
  "visibleRange (fixed_zone 0) 0
     [\<lparr>id_t = ''X'', name_t = ''x'', start_t = ISO (ymd 2024 2 1), end_t = ISO (ymd 2024 2 5),
        color_t = None, deps_t = []\<rparr>,
      \<lparr>id_t = ''Z'', name_t = ''z'', start_t = ISO (ymd 2024 1 15), end_t = ISO (ymd 2024 1 20),
        color_t = None, deps_t = [''X'']\<rparr>]
     = (ISO (ymd 2024 1 8), ISO (ymd 2024 2 26))
   \<and> spec_visibleRange
     [\<lparr>id_t = ''X'', name_t = ''x'', start_t = ISO (ymd 2024 2 1), end_t = ISO (ymd 2024 2 5),
        color_t = None, deps_t = []\<rparr>,
      \<lparr>id_t = ''Z'', name_t = ''z'', start_t = ISO (ymd 2024 1 15), end_t = ISO (ymd 2024 1 20),
        color_t = None, deps_t = [''X'']\<rparr>]
     = (ISO (ymd 2024 1 25), ISO (ymd 2024 2 26))
   \<and> ISO (ymd 2024 1 8) \<noteq> ISO (ymd 2024 1 25)"
  by (simp add: visibleRange_def spec_visibleRange_def parseDate_def fmt_def addDays_def
      fixed_zone_def TimeClip_def wellformed_def print_day_def day_of_def ymd_def msPerDay_def
      Let_def)

text \<open>
  C9, amended. In a time zone of fixed offset (of at most a day), for every non-empty
  task list of well-formed dates the visible window is the least start of all tasks
  minus 7 days and the greatest end of all tasks plus 21 days; for the empty list it is
  today and today plus 30 days, whenever the clock is not within the last 30 days that
  a \<^verbatim>\<open>Date\<close> can hold.
\<close>

theorem visibleRange_window:
  assumes "\<bar>tz\<bar> \<le> msPerDay"
  shows "(tasks \<noteq> [] \<and> list_all wellformed_task tasks \<longrightarrow>
      visibleRange (fixed_zone tz) now tasks
        = (print_day (Min ((\<lambda>t. day_of (start_t t)) ` set tasks) - 7),
           print_day (Max ((\<lambda>t. day_of (end_t t)) ` set tasks) + 21)))
   \<and> (\<bar>now\<bar> + 30 * msPerDay \<le> 8640000000000000 \<longrightarrow>
      visibleRange (fixed_zone tz) now []
        = (fmt (fixed_zone tz) (Some now),
           print_day (day_of (fmt (fixed_zone tz) (Some now)) + 30)))"
  using visibleRange_wellformed [OF assms, of tasks now] visibleRange_Nil [of now tz]
  by (simp only: list_all_iff simp_thms) blast

theorem visibleRange_window_witness:
  "visibleRange (fixed_zone 0) 0
        [\<lparr>id_t = ''X'', name_t = ''x'', start_t = ISO 10, end_t = ISO 14, color_t = None,
           deps_t = []\<rparr>] = (ISO 3, ISO 35)
   \<and> visibleRange (fixed_zone 0) 0 [] = (ISO 0, ISO 30)"
  using visibleRange_window [of 0
      "[\<lparr>id_t = ''X'', name_t = ''x'', start_t = ISO 10, end_t = ISO 14, color_t = None,
          deps_t = []\<rparr>]" 0]
  by (simp add: fmt_def fixed_zone_def msPerDay_def print_day_def day_of_def ymd_def
      wellformed_task_def wellformed_def)

section \<open>The dependency toggle\<close>

text \<open>
  C10. For every task list and every id \<open>x\<close>, toggling the dependency of \<open>x\<close> on itself
  leaves the list unchanged; and no toggle, whatever its two ids, changes which tasks
  depend on themselves, so the operation never creates a self-dependency.
\<close>

theorem toggleDep_self:
  "toggleDep x x tasks = tasks
   \<and> map selfDep (toggleDep from to tasks) = map selfDep tasks"
  by (auto simp: toggleDep_def selfDep_def)


section \<open>The scenario of the specification\<close>

lemma ymd_2024_02:
  "ymd 2024 2 1 = 19754" "ymd 2024 2 2 = 19755" "ymd 2024 2 5 = 19758"
  "ymd 2024 2 6 = 19759" "ymd 2024 2 9 = 19762"
  by (simp_all add: ymd_def)

lemma topoSort_pair:
  assumes "id_t X = ''X''" "deps_t X = []" "id_t Y = ''Y''" "deps_t Y = [''X'']"
  shows "topoSort [X, Y] = [''X'', ''Y'']"
  using assms
  by (simp add: topoSort_def build_def new_Map_def add_dep_def get0_def succs_def
      relax_all_def relax_def Let_def)

lemma midnight_pos: "tz < msPerDay \<Longrightarrow> 1 \<le> d \<Longrightarrow> 0 < d * msPerDay - tz"
proof -
  assume a: "tz < msPerDay" "1 \<le> d"
  have "1 * msPerDay \<le> d * msPerDay"
    using a(2) msPerDay_pos by (intro mult_right_mono) simp_all
  then show ?thesis using a(1) by simp
qed

lemma clampDateStr_inside:
  assumes "\<bar>tz\<bar> \<le> msPerDay" "wellformed (ISO s)" "wellformed (ISO lo)" "wellformed (ISO hi)"
    "lo \<le> s" "s \<le> hi"
  shows "clampDateStr (fixed_zone tz) (ISO s) (ISO lo) (ISO hi) = ISO s"
  using assms
  by (simp add: clampDateStr_def Let_def parseDate_fixed_ISO midnight_less_iff)

lemma runAutoSchedule_pair:
  assumes tz: "\<bar>tz\<bar> \<le> msPerDay"
    and X: "id_t X = ''X''" "start_t X = ISO 19754" "end_t X = ISO 19758" "deps_t X = []"
    and Y: "id_t Y = ''Y''" "start_t Y = ISO 19755" "end_t Y = ISO 19759" "deps_t Y = [''X'']"
  shows "runAutoSchedule (fixed_zone tz) now [X, Y]
           = Inr [X, Y\<lparr>start_t := ISO 19758, end_t := ISO 19762\<rparr>]"
proof -
  let ?z = "fixed_zone tz"
  have wf: "\<forall>t\<in>set [X, Y]. wellformed_task t"
    using X Y by (simp add: wellformed_task_def wellformed_ISO)
  have "visibleRange ?z now [X, Y] = (ISO 19747, ISO 19780)"
    using visibleRange_wellformed [OF tz _ wf, of now] X Y
    by (simp add: day_of_def print_day_ISO)
  then have r: "minDateStr ?z now [X, Y] = ISO 19747" "maxDateStr ?z now [X, Y] = ISO 19780"
    by (simp_all add: minDateStr_def maxDateStr_def)
  have ord: "topoSort [X, Y] = [''X'', ''Y'']"
    using X Y by (simp add: topoSort_pair)
  have m1: "new_Map (zip (map id_t [X, Y]) [0..<length [X, Y]]) = [(''X'', 0), (''Y'', Suc 0)]"
    using X Y by (simp add: new_Map_def upt_rec)
  have m2: "new_Map (map (\<lambda>t. (id_t t, t)) [X, Y]) = [(''X'', X), (''Y'', Y)]"
    using X Y by (simp add: new_Map_def)
  have p: "parseDate ?z (ISO 19754) = Some (19754 * msPerDay - tz)"
    "parseDate ?z (ISO 19755) = Some (19755 * msPerDay - tz)"
    "parseDate ?z (ISO 19758) = Some (19758 * msPerDay - tz)"
    "parseDate ?z (ISO 19759) = Some (19759 * msPerDay - tz)"
    by (simp_all add: parseDate_fixed_ISO [OF _ tz] wellformed_ISO)
  have s1: "schedule_step ?z (ISO 19747) (ISO 19780) [(''X'', 0), (''Y'', Suc 0)]
              [(''X'', X), (''Y'', Y)] ''X'' (Inr [X, Y]) = Inr [X, Y]"
    using X by (simp add: schedule_step_def latestEnd_schedule_def Let_def p)
  have L: "latestEnd_schedule ?z [(''X'', 0), (''Y'', Suc 0)] [(''X'', X), (''Y'', Y)] [X, Y] Y
             = Some (19758 * msPerDay - tz)"
    using X Y by (simp add: latestEnd_schedule_def Let_def p midnight_less_iff)
  have du: "diffInDays ?z (parseDate ?z (end_t Y)) (parseDate ?z (start_t Y)) = Some 4"
    using diffInDays_four_digit [OF tz, of 19759 19755] Y by (simp add: four_digit_ISO)
  have ns: "fmt ?z (addDays ?z (Some (19758 * msPerDay - tz)) (Some 0)) = ISO 19758"
    using addDays_midnight [OF tz, of 19758 0] by (simp add: print_day_ISO)
  have ne: "fmt ?z (addDays ?z (Some (19758 * msPerDay - tz)) (Some 4)) = ISO 19762"
    using addDays_midnight [OF tz, of 19758 4] by (simp add: print_day_ISO)
  have c: "clampDateStr ?z (ISO 19758) (ISO 19747) (ISO 19780) = ISO 19758"
    "clampDateStr ?z (ISO 19762) (ISO 19747) (ISO 19780) = ISO 19762"
    by (simp_all add: clampDateStr_inside [OF tz] wellformed_ISO)
  have s2: "schedule_step ?z (ISO 19747) (ISO 19780) [(''X'', 0), (''Y'', Suc 0)]
              [(''X'', X), (''Y'', Y)] ''Y'' (Inr [X, Y])
            = Inr [X, Y\<lparr>start_t := ISO 19758, end_t := ISO 19762\<rparr>]"
    unfolding schedule_step_def
    by (simp add: Let_def L du ns ne c) (simp add: Y p midnight_less_iff)
  show ?thesis
    unfolding runAutoSchedule_def autoSchedule_def r ord m1 m2 Let_def
    by (simp add: s1 s2)
qed

text \<open>
  C2. Let \<open>X\<close> be a task with id "X", start 2024-02-01, end 2024-02-05 and no
  dependencies, and \<open>Y\<close> a task with id "Y", start 2024-02-02, end 2024-02-06 and the
  dependency "X" (names and colours are arbitrary), in any time zone of a fixed offset
  of at most 14 hours. The violation set of \<open>[X, Y]\<close> is \<open>{Y}\<close>; the auto-scheduler
  returns the list in which \<open>X\<close> is unchanged and \<open>Y\<close> starts on 2024-02-05 and ends
  on 2024-02-09; the violation set of that list is empty.
\<close>

theorem scenario_XY:
  assumes tz: "\<bar>tz\<bar> \<le> 14 * 60 * 60 * 1000"
    and X: "id_t X = ''X''" "start_t X = ISO (ymd 2024 2 1)" "end_t X = ISO (ymd 2024 2 5)"
      "deps_t X = []"
    and Y: "id_t Y = ''Y''" "start_t Y = ISO (ymd 2024 2 2)" "end_t Y = ISO (ymd 2024 2 6)"
      "deps_t Y = [''X'']"
  shows "violations (fixed_zone tz) [X, Y] = {''Y''}
    \<and> runAutoSchedule (fixed_zone tz) now [X, Y]
        = Inr [X, Y\<lparr>start_t := ISO (ymd 2024 2 5), end_t := ISO (ymd 2024 2 9)\<rparr>]
    \<and> violations (fixed_zone tz) [X, Y\<lparr>start_t := ISO (ymd 2024 2 5),
          end_t := ISO (ymd 2024 2 9)\<rparr>] = {}"
proof -
  let ?z = "fixed_zone tz"
  have tzD: "\<bar>tz\<bar> \<le> msPerDay" and "tz < msPerDay"
    using tz by (simp_all add: msPerDay_def)
  then have pos: "0 < 19758 * msPerDay - tz"
    by (intro midnight_pos) simp_all
  have p: "parseDate ?z (ISO 19754) = Some (19754 * msPerDay - tz)"
    "parseDate ?z (ISO 19755) = Some (19755 * msPerDay - tz)"
    "parseDate ?z (ISO 19758) = Some (19758 * msPerDay - tz)"
    by (simp_all add: parseDate_fixed_ISO [OF _ tzD] wellformed_ISO)
  have v1: "violations ?z [X, Y] = {''Y''}"
    using X Y pos
    by (simp add: violations_def latestEnd_violations_def new_Map_def Let_def ymd_2024_02
        p midnight_less_iff)
  have v2: "violations ?z [X, Y\<lparr>start_t := ISO (ymd 2024 2 5),
              end_t := ISO (ymd 2024 2 9)\<rparr>] = {}"
    using X Y pos
    by (simp add: violations_def latestEnd_violations_def new_Map_def Let_def ymd_2024_02
        p midnight_less_iff)
  have r: "runAutoSchedule ?z now [X, Y]
             = Inr [X, Y\<lparr>start_t := ISO (ymd 2024 2 5), end_t := ISO (ymd 2024 2 9)\<rparr>]"
    using X Y runAutoSchedule_pair [OF tzD, of X Y now] by (simp add: ymd_2024_02)
  from v1 r v2 show ?thesis by simp
qed

theorem scenario_XY_witness:
  "violations (fixed_zone 0)
     [\<lparr>id_t = ''X'', name_t = ''x'', start_t = ISO (ymd 2024 2 1), end_t = ISO (ymd 2024 2 5),
        color_t = None, deps_t = []\<rparr>,
      \<lparr>id_t = ''Y'', name_t = ''y'', start_t = ISO (ymd 2024 2 2), end_t = ISO (ymd 2024 2 6),
        color_t = None, deps_t = [''X'']\<rparr>] = {''Y''}
   \<and> runAutoSchedule (fixed_zone 0) 0
     [\<lparr>id_t = ''X'', name_t = ''x'', start_t = ISO (ymd 2024 2 1), end_t = ISO (ymd 2024 2 5),
        color_t = None, deps_t = []\<rparr>,
      \<lparr>id_t = ''Y'', name_t = ''y'', start_t = ISO (ymd 2024 2 2), end_t = ISO (ymd 2024 2 6),
        color_t = None, deps_t = [''X'']\<rparr>]
     = Inr
     [\<lparr>id_t = ''X'', name_t = ''x'', start_t = ISO (ymd 2024 2 1), end_t = ISO (ymd 2024 2 5),
        color_t = None, deps_t = []\<rparr>,
      \<lparr>id_t = ''Y'', name_t = ''y'', start_t = ISO (ymd 2024 2 5), end_t = ISO (ymd 2024 2 9),
        color_t = None, deps_t = [''X'']\<rparr>]
   \<and> violations (fixed_zone 0)
     [\<lparr>id_t = ''X'', name_t = ''x'', start_t = ISO (ymd 2024 2 1), end_t = ISO (ymd 2024 2 5),
        color_t = None, deps_t = []\<rparr>,
      \<lparr>id_t = ''Y'', name_t = ''y'', start_t = ISO (ymd 2024 2 5), end_t = ISO (ymd 2024 2 9),
        color_t = None, deps_t = [''X'']\<rparr>] = {}"
  using scenario_XY [of 0
      "\<lparr>id_t = ''X'', name_t = ''x'', start_t = ISO (ymd 2024 2 1), end_t = ISO (ymd 2024 2 5),
        color_t = None, deps_t = []\<rparr>"
      "\<lparr>id_t = ''Y'', name_t = ''y'', start_t = ISO (ymd 2024 2 2), end_t = ISO (ymd 2024 2 6),
        color_t = None, deps_t = [''X'']\<rparr>" 0]
  by simp

section \<open>Correctness of the topological sort\<close>

lemma get0_update: "get0 (AList.update k v m) = (get0 m)(k := v)"
  by (rule ext) (simp add: get0_def update_conv')

lemma relax_pair:
  "relax n (indeg, q)
     = (AList.update n (get0 indeg n - 1) indeg, if get0 indeg n = 1 then q @ [n] else q)"
  by (auto simp: relax_def Let_def update_conv')

lemma fold_relax_snd:
  "snd (fold relax ns (indeg, q)) = q @ pushed (get0 indeg) ns"
  by (induction ns arbitrary: indeg q) (simp_all add: relax_pair get0_update)

lemma fold_relax_fst:
  "get0 (fst (fold relax ns (indeg, q))) n = get0 indeg n - int (count_list ns n)"
  by (induction ns arbitrary: indeg q) (simp_all add: relax_pair get0_update)

lemma set_pushed: "set (pushed D ns) = {n. 1 \<le> D n \<and> D n \<le> int (count_list ns n)}"
proof (induction ns arbitrary: D)
  case Nil
  then show ?case by auto
next
  case (Cons m ns)
  show ?case
    unfolding pushed.simps set_append Cons.IH
    by (auto split: if_splits)
qed

lemma distinct_pushed: "distinct (pushed D ns)"
proof (induction ns arbitrary: D)
  case Nil
  then show ?case by simp
next
  case (Cons m ns)
  then show ?case by (simp add: set_pushed)
qed

lemma index_of_append_in: "x \<in> set xs \<Longrightarrow> index_of (xs @ ys) x = index_of xs x"
  by (induction xs) (auto simp: index_of_def)

lemma index_of_append_new: "x \<notin> set xs \<Longrightarrow> index_of (xs @ [x]) x = length xs"
  by (induction xs) (auto simp: index_of_def)

lemma index_of_less: "x \<in> set xs \<Longrightarrow> index_of xs x < length xs"
  by (induction xs) (auto simp: index_of_def)

lemma cnt_insert:
  "x \<notin> S \<Longrightarrow>
     int (cnt es (insert x S) n)
       = int (cnt es S n) - int (count_list (map snd (filter (\<lambda>e. fst e = x) es)) n)"
  by (induction es) (auto simp: cnt_def)

lemma cnt_mono: "cnt es S n = 0 \<Longrightarrow> cnt es (insert x S) n = 0"
  by (auto simp: cnt_def filter_empty_conv)

lemma cnt_zero_iff: "cnt es S n = 0 \<longleftrightarrow> (\<forall>e\<in>set es. snd e = n \<longrightarrow> fst e \<in> S)"
  by (auto simp: cnt_def filter_empty_conv)

lemma kahn_step:
  assumes g: "graph_ok es V graph" and inv: "kahn_inv es V indeg (x # q) out"
  shows "kahn_inv es V (fst (relax_all graph x indeg q)) (snd (relax_all graph x indeg q))
           (out @ [x])"
proof -
  let ?S = "map snd (filter (\<lambda>e. fst e = x) es)"
  let ?D = "get0 indeg"
  let ?P = "pushed ?D ?S"
  have sx: "succs graph x = ?S" and V: "\<forall>e\<in>set es. fst e \<in> V \<and> snd e \<in> V"
    using g by (simp_all add: graph_ok_def)
  from inv have dist: "distinct (out @ x # q)" and sub: "set (out @ x # q) \<subseteq> V"
    and D: "\<And>n. ?D n = int (cnt es (set out) n)"
    and Z: "\<And>n. n \<in> V \<Longrightarrow> n \<in> set (out @ x # q) \<longleftrightarrow> cnt es (set out) n = 0"
    and T: "\<And>e. e \<in> set es \<Longrightarrow> snd e \<in> set out \<Longrightarrow>
              fst e \<in> set out \<and> index_of out (fst e) < index_of out (snd e)"
    by (simp_all add: kahn_inv_def)
  have xout: "x \<notin> set out" and xV: "x \<in> V" using dist sub by auto
  have q': "snd (relax_all graph x indeg q) = q @ ?P"
    by (simp add: relax_all_def sx fold_relax_snd)
  have D': "get0 (fst (relax_all graph x indeg q)) n = int (cnt es (set (out @ [x])) n)" for n
    using cnt_insert [OF xout, of es n] D [of n]
    by (simp add: relax_all_def sx fold_relax_fst)
  have PV: "set ?P \<subseteq> V"
  proof
    fix n assume "n \<in> set ?P"
    then have "1 \<le> int (count_list ?S n)" by (simp add: set_pushed)
    then have "n \<in> set ?S" by (cases "n \<in> set ?S") (simp_all add: count_list_0_iff)
    then show "n \<in> V" using V by auto
  qed
  have Pnew: "n \<notin> set (out @ x # q)" if "n \<in> set ?P" for n
  proof -
    from that have "1 \<le> ?D n" by (simp add: set_pushed)
    then have "cnt es (set out) n \<noteq> 0" using D [of n] by simp
    moreover have "n \<in> V" using PV that by auto
    ultimately show ?thesis using Z [of n] by simp
  qed
  have "set (out @ x # q) \<inter> set ?P = {}"
    using Pnew by blast
  then have d': "distinct ((out @ [x]) @ q @ ?P)"
    using dist distinct_pushed [of ?D ?S] by (simp add: Int_Un_distrib2) blast
  have s': "set ((out @ [x]) @ q @ ?P) \<subseteq> V"
    using sub PV by auto
  have Z': "n \<in> set ((out @ [x]) @ q @ ?P) \<longleftrightarrow> cnt es (set (out @ [x])) n = 0"
    if nV: "n \<in> V" for n
  proof
    assume "n \<in> set ((out @ [x]) @ q @ ?P)"
    then consider "n \<in> set (out @ x # q)" | "n \<in> set ?P" by auto
    then show "cnt es (set (out @ [x])) n = 0"
    proof cases
      case 1
      then have "cnt es (set out) n = 0" using Z [OF nV] by simp
      then show ?thesis using cnt_mono [of es "set out" n x] by simp
    next
      case 2
      then have "?D n \<le> int (count_list ?S n)" by (simp add: set_pushed)
      then have "int (cnt es (set (out @ [x])) n) \<le> 0"
        using cnt_insert [OF xout, of es n] D [of n] by simp
      then show ?thesis by simp
    qed
  next
    assume z: "cnt es (set (out @ [x])) n = 0"
    then have eq: "?D n = int (count_list ?S n)"
      using cnt_insert [OF xout, of es n] D [of n] by simp
    show "n \<in> set ((out @ [x]) @ q @ ?P)"
    proof (cases "?D n = 0")
      case True
      then have "cnt es (set out) n = 0" using D [of n] by simp
      then have "n \<in> set (out @ x # q)" using Z [OF nV] by simp
      then show ?thesis by auto
    next
      case False
      then have "1 \<le> ?D n" using D [of n] by simp
      then have "n \<in> set ?P" using eq by (simp add: set_pushed)
      then show ?thesis by simp
    qed
  qed
  have T': "fst e \<in> set (out @ [x])
            \<and> index_of (out @ [x]) (fst e) < index_of (out @ [x]) (snd e)"
    if e: "e \<in> set es" and se: "snd e \<in> set (out @ [x])" for e
  proof (cases "snd e \<in> set out")
    case True
    then have "fst e \<in> set out" "index_of out (fst e) < index_of out (snd e)"
      using T [OF e] by simp_all
    then show ?thesis using True by (simp add: index_of_append_in)
  next
    case False
    then have sx': "snd e = x" using se by simp
    have "cnt es (set out) x = 0" using Z [OF xV] by simp
    then have f: "fst e \<in> set out" using e sx' by (simp add: cnt_zero_iff)
    then have "index_of (out @ [x]) (fst e) < length out"
      by (simp add: index_of_append_in index_of_less)
    then show ?thesis using f sx' xout by (simp add: index_of_append_new)
  qed
  show ?thesis
    unfolding kahn_inv_def q'
proof (intro conjI allI ballI impI)
    show "distinct ((out @ [x]) @ q @ ?P)" by (rule d')
    show "set ((out @ [x]) @ q @ ?P) \<subseteq> V" by (rule s')
    show "get0 (fst (relax_all graph x indeg q)) n = int (cnt es (set (out @ [x])) n)" for n
      by (rule D')
    show "(n \<in> set ((out @ [x]) @ q @ ?P)) = (cnt es (set (out @ [x])) n = 0)"
      if "n \<in> V" for n using that by (rule Z')
    show "fst e \<in> set (out @ [x])" if "e \<in> set es" "snd e \<in> set (out @ [x])" for e
      using T' [OF that] by simp
    show "index_of (out @ [x]) (fst e) < index_of (out @ [x]) (snd e)"
      if "e \<in> set es" "snd e \<in> set (out @ [x])" for e
      using T' [OF that] by simp
  qed
qed

lemma kahn_loop_inv:
  assumes "graph_ok es V graph" "kahn_inv es V indeg q out"
  shows "\<exists>indeg'. kahn_inv es V indeg' [] (kahn_loop graph indeg q out)"
  using assms
proof (induction graph indeg q out rule: kahn_loop.induct)
  case (1 graph indeg out)
  then show ?case by auto
next
  case (2 graph indeg x q out)
  have "kahn_inv es V (fst (relax_all graph x indeg q)) (snd (relax_all graph x indeg q))
          (out @ [x])"
    using "2.prems" by (rule kahn_step)
  then show ?case using "2.IH" "2.prems"(1) by simp
qed

lemma map_of_fold_update:
  "map_of (fold (\<lambda>e m. AList.update (fst e) (snd e) m) es m0) = map_of m0 ++ map_of (rev es)"
proof (induction es arbitrary: m0)
  case Nil
  then show ?case by simp
next
  case (Cons e es)
  have "map_of (AList.update (fst e) (snd e) m0) ++ map_of (rev es)
          = map_of m0 ++ (map_of [e] ++ map_of (rev es))"
    by (rule ext) (simp add: map_add_def update_conv' split: option.splits)
  then show ?case by (simp add: Cons.IH)
qed

lemma keys_fold_update:
  "distinct (map fst m0) \<Longrightarrow>
     distinct (map fst (fold (\<lambda>e m. AList.update (fst e) (snd e) m) es m0))"
  "fst ` set (fold (\<lambda>e m. AList.update (fst e) (snd e) m) es m0) = fst ` set es \<union> fst ` set m0"
  by (induction es arbitrary: m0) (auto simp: distinct_update dom_update)

lemma map_of_new_Map: "map_of (new_Map es) = map_of (rev es)"
  by (simp add: new_Map_def map_of_fold_update)

lemma distinct_new_Map: "distinct (map fst (new_Map es))"
  by (simp add: new_Map_def keys_fold_update(1))

lemma keys_new_Map: "fst ` set (new_Map es) = fst ` set es"
  by (simp add: new_Map_def keys_fold_update(2))

lemma map_of_new_Map_const:
  "map_of (new_Map (map (\<lambda>i. (i, c)) ids)) k = (if k \<in> set ids then Some c else None)"
proof -
  have "map_of (map (\<lambda>i. (i, c)) xs) k = (if k \<in> set xs then Some c else None)" for xs
    by (induction xs) auto
  from this [of "rev ids"] show ?thesis
    by (simp add: map_of_new_Map rev_map)
qed

lemma succs_update: "succs (AList.update k v m) = (succs m)(k := v)"
  by (rule ext) (simp add: succs_def update_conv')

lemma add_dep_inv:
  assumes inv: "build_inv K es st" and tid: "tid \<in> K"
  shows "build_inv K (es @ (if p \<in> K then [(p, tid)] else [])) (add_dep tid p st)"
proof (cases "map_of (fst st) p")
  case None
  then have "p \<notin> K" using inv by (simp add: build_inv_def map_of_eq_None_iff)
  then show ?thesis using inv None by (simp add: add_dep_def)
next
  case (Some ns)
  then have "map_of (fst st) p \<noteq> None" by simp
  then have "p \<in> fst ` set (fst st)" unfolding map_of_eq_None_iff by simp
  then have pK: "p \<in> K" using inv by (simp add: build_inv_def)
  have ns: "succs (fst st) p = ns" using Some by (simp add: succs_def)
  have a: "add_dep tid p st = (AList.update p (ns @ [tid]) (fst st),
                              AList.update tid (get0 (snd st) tid + 1) (snd st))"
    using Some by (simp add: add_dep_def)
  from inv have k1: "fst ` set (fst st) = K" and k2: "distinct (map fst (snd st))"
    and k3: "fst ` set (snd st) = K"
    and k4: "\<And>x. succs (fst st) x = map snd (filter (\<lambda>e. fst e = x) es)"
    and k5: "\<And>n. get0 (snd st) n = int (length (filter (\<lambda>e. snd e = n) es))"
    by (simp_all add: build_inv_def)
  have "fst ` set (AList.update p (ns @ [tid]) (fst st)) = K"
    using k1 pK by (auto simp: dom_update)
  moreover have "distinct (map fst (AList.update tid (get0 (snd st) tid + 1) (snd st)))"
    using k2 by (rule distinct_update)
  moreover have "fst ` set (AList.update tid (get0 (snd st) tid + 1) (snd st)) = K"
    using k3 tid by (auto simp: dom_update)
  moreover have "succs (AList.update p (ns @ [tid]) (fst st)) x
                   = map snd (filter (\<lambda>e. fst e = x) (es @ [(p, tid)]))" for x
    using k4 [of x] k4 [of p] ns by (auto simp: succs_update)
  moreover have "get0 (AList.update tid (get0 (snd st) tid + 1) (snd st)) n
                   = int (length (filter (\<lambda>e. snd e = n) (es @ [(p, tid)])))" for n
    using k5 [of n] k5 [of tid] by (auto simp: get0_update)
  ultimately show ?thesis
    unfolding a build_inv_def using pK by simp
qed

lemma fold_add_dep_inv:
  assumes "build_inv K es st" and "tid \<in> K"
  shows "build_inv K (es @ map (\<lambda>p. (p, tid)) (filter (\<lambda>p. p \<in> K) ps))
           (fold (add_dep tid) ps st)"
  using assms
proof (induction ps arbitrary: es st)
  case Nil
  then show ?case by simp
next
  case (Cons p ps)
  have "build_inv K (es @ (if p \<in> K then [(p, tid)] else [])) (add_dep tid p st)"
    using Cons.prems by (rule add_dep_inv)
  from Cons.IH [OF this Cons.prems(2)] show ?case by (cases "p \<in> K") simp_all
qed

lemma fold_tasks_inv:
  assumes "build_inv K es st" and "set (map id_t ts) \<subseteq> K"
  shows "build_inv K
           (es @ concat (map (\<lambda>t. map (\<lambda>p. (p, id_t t)) (filter (\<lambda>p. p \<in> K) (deps_t t))) ts))
           (fold (\<lambda>t st. fold (add_dep (id_t t)) (deps_t t) st) ts st)"
  using assms
proof (induction ts arbitrary: es st)
  case Nil
  then show ?case by simp
next
  case (Cons t ts)
  have "build_inv K (es @ map (\<lambda>p. (p, id_t t)) (filter (\<lambda>p. p \<in> K) (deps_t t)))
          (fold (add_dep (id_t t)) (deps_t t) st)"
    using Cons.prems by (intro fold_add_dep_inv) simp_all
  from Cons.IH [OF this] Cons.prems(2) show ?case by simp
qed

lemma build_inv_build:
  "build_inv (set (map id_t tasks)) (edge_list tasks) (build tasks)"
proof -
  let ?ids = "map id_t tasks"
  have "build_inv (set ?ids) []
          (new_Map (map (\<lambda>i. (i, [])) ?ids), new_Map (map (\<lambda>i. (i, 0)) ?ids))"
    by (simp add: build_inv_def keys_new_Map distinct_new_Map image_image succs_def get0_def
        map_of_new_Map_const del: map_map)
  from fold_tasks_inv [OF this, of tasks] show ?thesis
    by (simp add: build_def edge_list_def Let_def)
qed

lemma edge_list_ids:
  "e \<in> set (edge_list tasks) \<Longrightarrow> fst e \<in> set (map id_t tasks) \<and> snd e \<in> set (map id_t tasks)"
  by (auto simp: edge_list_def)

lemma kahn_inv_initial:
  assumes "build_inv V es (graph, indeg)"
  shows "kahn_inv es V indeg (map fst (filter (\<lambda>e. snd e = 0) indeg)) []"
proof -
  from assms have d: "distinct (map fst indeg)" and k: "fst ` set indeg = V"
    and c: "\<And>n. get0 indeg n = int (length (filter (\<lambda>e. snd e = n) es))"
    by (simp_all add: build_inv_def)
  let ?q = "map fst (filter (\<lambda>e. snd e = 0) indeg)"
  have "distinct ?q" using d by (rule distinct_map_filter)
  moreover have "set ?q \<subseteq> V" using k by auto
  moreover have "get0 indeg n = int (cnt es (set []) n)" for n
    using c [of n] by (simp add: cnt_def)
  moreover have "n \<in> set ?q \<longleftrightarrow> cnt es (set []) n = 0" if "n \<in> V" for n
  proof -
    from that k have "n \<in> fst ` set indeg" by simp
    then obtain v where v: "(n, v) \<in> set indeg" by force
    then have m: "map_of indeg n = Some v" using d by simp
    have "n \<in> set ?q \<longleftrightarrow> (n, 0) \<in> set indeg" by force
    also have "\<dots> \<longleftrightarrow> map_of indeg n = Some 0" using d by simp
    also have "\<dots> \<longleftrightarrow> v = 0" using m by simp
    also have "\<dots> \<longleftrightarrow> get0 indeg n = 0" using m by (simp add: get0_def)
    also have "\<dots> \<longleftrightarrow> cnt es (set []) n = 0" using c [of n] by (simp add: cnt_def)
    finally show ?thesis .
  qed
  ultimately show ?thesis by (simp add: kahn_inv_def)
qed

lemma topoSort_out:
  obtains out indeg' where
    "kahn_inv (edge_list tasks) (set (map id_t tasks)) indeg' [] out"
    "topoSort tasks = (if length out = length tasks then out else map id_t tasks)"
proof -
  let ?es = "edge_list tasks" and ?V = "set (map id_t tasks)"
  let ?graph = "fst (build tasks)" and ?indeg = "snd (build tasks)"
  let ?q = "map fst (filter (\<lambda>e. snd e = 0) ?indeg)"
  have b: "build_inv ?V ?es (?graph, ?indeg)"
    using build_inv_build [of tasks] by simp
  then have g: "graph_ok ?es ?V ?graph"
    using edge_list_ids [of _ tasks] by (simp add: graph_ok_def build_inv_def)
  have "kahn_inv ?es ?V ?indeg ?q []" using b by (rule kahn_inv_initial)
  with g obtain indeg' where "kahn_inv ?es ?V indeg' [] (kahn_loop ?graph ?indeg ?q [])"
    using kahn_loop_inv by blast
  moreover have "topoSort tasks = (if length (kahn_loop ?graph ?indeg ?q []) = length tasks
      then kahn_loop ?graph ?indeg ?q [] else map id_t tasks)"
    by (simp add: topoSort_def Let_def)
  ultimately show ?thesis using that by blast
qed

lemma set_topoSort: "set (topoSort tasks) \<subseteq> set (map id_t tasks)"
proof -
  obtain out indeg' where
    "kahn_inv (edge_list tasks) (set (map id_t tasks)) indeg' [] out"
    "topoSort tasks = (if length out = length tasks then out else map id_t tasks)"
    by (rule topoSort_out)
  then show ?thesis by (auto simp: kahn_inv_def)
qed

lemma topoSort_acyclic:
  assumes d: "distinct (map id_t tasks)" and a: "acyclic (edges tasks)"
  shows "mset (topoSort tasks) = mset (map id_t tasks)"
    and "\<forall>e\<in>edges tasks. index_of (topoSort tasks) (fst e) < index_of (topoSort tasks) (snd e)"
proof -
  let ?es = "edge_list tasks" and ?V = "set (map id_t tasks)"
  obtain out indeg' where inv: "kahn_inv ?es ?V indeg' [] out"
    and ts: "topoSort tasks = (if length out = length tasks then out else map id_t tasks)"
    by (rule topoSort_out)
  from inv have dist: "distinct out" and sub: "set out \<subseteq> ?V"
    and Z: "\<And>n. n \<in> ?V \<Longrightarrow> n \<in> set out \<longleftrightarrow> cnt ?es (set out) n = 0"
    and T: "\<And>e. e \<in> set ?es \<Longrightarrow> snd e \<in> set out \<Longrightarrow>
              fst e \<in> set out \<and> index_of out (fst e) < index_of out (snd e)"
    unfolding kahn_inv_def by (simp_all del: set_map)
  have "wf (edges tasks)"
    using a by (intro finite_acyclic_wf) (simp_all add: edges_def)
  have all: "?V \<subseteq> set out"
  proof (rule ccontr)
    assume "\<not> ?V \<subseteq> set out"
    then obtain y where "y \<in> ?V - set out" by blast
    with \<open>wf (edges tasks)\<close> obtain z where z: "z \<in> ?V - set out"
      and zmin: "\<And>y. (y, z) \<in> edges tasks \<Longrightarrow> y \<notin> ?V - set out"
      by (rule wfE_min) blast
    from z have "cnt ?es (set out) z \<noteq> 0" using Z [of z] by simp
    then obtain e where e: "e \<in> set ?es" "snd e = z" "fst e \<notin> set out"
      by (auto simp: cnt_zero_iff)
    then have "fst e \<in> ?V" using edge_list_ids by blast
    moreover have "(fst e, z) \<in> edges tasks" using e by (auto simp: edges_def)
    ultimately show False using zmin e(3) by blast
  qed
  with sub have eq: "set out = ?V" by blast
  have "length out = card (set out)" using dist by (simp add: distinct_card)
  also have "\<dots> = length (map id_t tasks)"
    unfolding eq using d by (rule distinct_card)
  finally have len: "length out = length tasks" by simp
  then have t: "topoSort tasks = out" using ts by simp
  show "mset (topoSort tasks) = mset (map id_t tasks)"
    unfolding t by (rule iffD1 [OF set_eq_iff_mset_eq_distinct [OF dist d] eq])
  show "\<forall>e\<in>edges tasks. index_of (topoSort tasks) (fst e) < index_of (topoSort tasks) (snd e)"
  proof
    fix e assume e: "e \<in> edges tasks"
    then have "snd e \<in> set out" using eq edge_list_ids [of e tasks] by (simp add: edges_def)
    then show "index_of (topoSort tasks) (fst e) < index_of (topoSort tasks) (snd e)"
      unfolding t using T [of e] e by (simp add: edges_def)
  qed
qed

lemma topoSort_cyclic:
  assumes c: "\<not> acyclic (edges tasks)"
  shows "topoSort tasks = map id_t tasks"
proof -
  let ?es = "edge_list tasks" and ?V = "set (map id_t tasks)"
  obtain out indeg' where inv: "kahn_inv ?es ?V indeg' [] out"
    and ts: "topoSort tasks = (if length out = length tasks then out else map id_t tasks)"
    by (rule topoSort_out)
  from inv have dist: "distinct out" and sub: "set out \<subseteq> ?V"
    and T: "\<And>e. e \<in> set ?es \<Longrightarrow> snd e \<in> set out \<Longrightarrow>
              fst e \<in> set out \<and> index_of out (fst e) < index_of out (snd e)"
    unfolding kahn_inv_def by (simp_all del: set_map)
  from c obtain x where x: "(x, x) \<in> trancl (edges tasks)"
    by (auto simp: acyclic_def)
  have bk: "b \<in> set out \<Longrightarrow> a \<in> set out \<and> index_of out a < index_of out b"
    if "(a, b) \<in> trancl (edges tasks)" for a b
    using that
  proof (induction rule: trancl_induct)
    case (base y)
    then show ?case using T [of "(a, y)"] by (simp add: edges_def)
  next
    case (step y z)
    from step.hyps(2) step.prems have "y \<in> set out" "index_of out y < index_of out z"
      using T [of "(y, z)"] by (simp_all add: edges_def)
    with step.IH show ?case by auto
  qed
  have xout: "x \<notin> set out" using bk [OF x] by auto
  have "x \<in> Range (edges tasks)" using x by (metis Range.intros trancl_range)
  then have xV: "x \<in> ?V" using edge_list_ids by (fastforce simp: edges_def)
  have "set out \<subset> ?V" using sub xout xV by blast
  then have "card (set out) < card ?V" by (intro psubset_card_mono) simp_all
  moreover have "card ?V \<le> length tasks" using card_length [of "map id_t tasks"] by simp
  moreover have "card (set out) = length out" using dist by (simp add: distinct_card)
  ultimately have "length out \<noteq> length tasks" by simp
  then show ?thesis using ts by simp
qed

text \<open>
  C3. For every task list with unique ids whose resolvable-predecessor graph is acyclic,
  the topological sort returns a permutation of the task ids in which, for every edge
  from a predecessor to a successor, the predecessor stands before the successor.
\<close>

theorem topoSort_topological:
  assumes "distinct (map id_t tasks)" and "acyclic (edges tasks)"
  shows "mset (topoSort tasks) = mset (map id_t tasks)
    \<and> (\<forall>e\<in>edges tasks. index_of (topoSort tasks) (fst e) < index_of (topoSort tasks) (snd e))"
  using topoSort_acyclic [OF assms] by simp

theorem topoSort_topological_witness:
  "mset (topoSort
      [\<lparr>id_t = ''Y'', name_t = ''y'', start_t = ISO 5, end_t = ISO 9, color_t = None,
         deps_t = [''X'', ''gone'']\<rparr>,
       \<lparr>id_t = ''X'', name_t = ''x'', start_t = ISO 1, end_t = ISO 5, color_t = None,
         deps_t = []\<rparr>]) = mset [''Y'', ''X'']
   \<and> index_of (topoSort
      [\<lparr>id_t = ''Y'', name_t = ''y'', start_t = ISO 5, end_t = ISO 9, color_t = None,
         deps_t = [''X'', ''gone'']\<rparr>,
       \<lparr>id_t = ''X'', name_t = ''x'', start_t = ISO 1, end_t = ISO 5, color_t = None,
         deps_t = []\<rparr>]) ''X''
     < index_of (topoSort
      [\<lparr>id_t = ''Y'', name_t = ''y'', start_t = ISO 5, end_t = ISO 9, color_t = None,
         deps_t = [''X'', ''gone'']\<rparr>,
       \<lparr>id_t = ''X'', name_t = ''x'', start_t = ISO 1, end_t = ISO 5, color_t = None,
         deps_t = []\<rparr>]) ''Y''"
proof -
  let ?ts = "[\<lparr>id_t = ''Y'', name_t = ''y'', start_t = ISO 5, end_t = ISO 9, color_t = None,
         deps_t = [''X'', ''gone'']\<rparr>,
       \<lparr>id_t = ''X'', name_t = ''x'', start_t = ISO 1, end_t = ISO 5, color_t = None,
         deps_t = []\<rparr>]"
  have e: "edges ?ts = {(''X'', ''Y'')}"
    by (simp add: edges_def edge_list_def)
  have "acyclic ({} :: (string \<times> string) set)"
    by (simp add: acyclic_def)
  then have a: "acyclic (edges ?ts)"
    unfolding e by simp
  have d: "distinct (map id_t ?ts)" by simp
  from topoSort_topological [OF d a] show ?thesis
    unfolding e by simp
qed

text \<open>
  C4. For every task list whose resolvable-predecessor graph contains a cycle, the
  topological sort returns the list of the task ids in their original order.
\<close>

theorem topoSort_cycle_fallback:
  assumes "\<not> acyclic (edges tasks)"
  shows "topoSort tasks = map id_t tasks"
  using assms by (rule topoSort_cyclic)

theorem topoSort_cycle_fallback_witness:
  "topoSort
     [\<lparr>id_t = ''A'', name_t = ''a'', start_t = ISO 1, end_t = ISO 5, color_t = None,
        deps_t = [''B'']\<rparr>,
      \<lparr>id_t = ''B'', name_t = ''b'', start_t = ISO 5, end_t = ISO 9, color_t = None,
        deps_t = [''A'']\<rparr>,
      \<lparr>id_t = ''C'', name_t = ''c'', start_t = ISO 2, end_t = ISO 3, color_t = None,
        deps_t = []\<rparr>] = [''A'', ''B'', ''C'']"
proof -
  let ?ts = "[\<lparr>id_t = ''A'', name_t = ''a'', start_t = ISO 1, end_t = ISO 5, color_t = None,
        deps_t = [''B'']\<rparr>,
      \<lparr>id_t = ''B'', name_t = ''b'', start_t = ISO 5, end_t = ISO 9, color_t = None,
        deps_t = [''A'']\<rparr>,
      \<lparr>id_t = ''C'', name_t = ''c'', start_t = ISO 2, end_t = ISO 3, color_t = None,
        deps_t = []\<rparr>]"
  have e: "edges ?ts = {(''B'', ''A''), (''A'', ''B'')}"
    by (simp add: edges_def edge_list_def)
  have "(''A'', ''B'') \<in> edges ?ts" "(''B'', ''A'') \<in> edges ?ts"
    unfolding e by simp_all
  then have "(''A'', ''A'') \<in> trancl (edges ?ts)"
    by (rule trancl.intros(2) [OF trancl.intros(1)])
  then have c: "\<not> acyclic (edges ?ts)"
    by (auto simp: acyclic_def)
  from topoSort_cycle_fallback [OF c] show ?thesis by simp
qed


section \<open>One step of the auto-scheduler\<close>

lemma nextMap_of_Some:
  assumes "map_of (nextMap_of tasks) i = Some k"
  shows "k < length tasks" "id_t (tasks ! k) = i"
proof -
  from assms have "(i, k) \<in> set (zip (map id_t tasks) [0..<length tasks])"
    by (auto simp: nextMap_of_def map_of_new_Map dest: map_of_SomeD)
  then show "k < length tasks" "id_t (tasks ! k) = i"
    by (auto simp: set_zip)
qed

lemma nextMap_of_None:
  "map_of (nextMap_of tasks) i = None \<longleftrightarrow> i \<notin> set (map id_t tasks)"
proof -
  have "map fst (zip (map id_t tasks) [0..<length tasks]) = map id_t tasks"
    by simp
  then have "fst ` set (zip (map id_t tasks) [0..<length tasks]) = set (map id_t tasks)"
    by (simp only: set_map [symmetric])
  then show ?thesis
    by (simp add: nextMap_of_def map_of_new_Map map_of_eq_None_iff del: set_map)
qed

lemma idToTask_of_None:
  "map_of (idToTask_of tasks) i = None \<longleftrightarrow> i \<notin> set (map id_t tasks)"
  by (simp add: idToTask_of_def map_of_new_Map map_of_eq_None_iff image_image)

lemma nextMap_of_distinct:
  assumes "distinct (map id_t tasks)" "k < length tasks"
  shows "map_of (nextMap_of tasks) (id_t (tasks ! k)) = Some k"
proof -
  have "distinct (map fst (rev (zip (map id_t tasks) [0..<length tasks])))"
    using assms(1) by (simp add: rev_map [symmetric])
  moreover have "(id_t (tasks ! k), k) \<in> set (rev (zip (map id_t tasks) [0..<length tasks]))"
    using assms(2) by (auto simp: set_zip intro!: exI [of _ k])
  ultimately show ?thesis
    unfolding nextMap_of_def map_of_new_Map by (rule map_of_is_SomeI)
qed

lemma look_Some:
  assumes "look tasks nxt pid = Some p"
  shows "\<exists>j<length tasks. id_t (tasks ! j) = pid \<and> p = nxt ! j"
proof (cases "map_of (nextMap_of tasks) pid")
  case None
  then have "map_of (idToTask_of tasks) pid = None"
    by (simp add: nextMap_of_None idToTask_of_None)
  then show ?thesis using assms None by (simp add: look_def)
next
  case (Some j)
  then show ?thesis using assms nextMap_of_Some [OF Some] by (auto simp: look_def)
qed

lemma look_distinct:
  "distinct (map id_t tasks) \<Longrightarrow> j < length tasks \<Longrightarrow>
     look tasks nxt (id_t (tasks ! j)) = Some (nxt ! j)"
  by (simp add: look_def nextMap_of_distinct)

lemma latestEnd_schedule_latest:
  "latestEnd_schedule z (nextMap_of tasks) (idToTask_of tasks) nxt t
     = latest z (look tasks nxt) t"
  by (simp add: latestEnd_schedule_def latest_def look_def [abs_def])

lemma autoSchedule_alt:
  "autoSchedule z lo hi tasks
     = fold (schedule_step z lo hi (nextMap_of tasks) (idToTask_of tasks)) (topoSort tasks)
         (Inr tasks)"
  by (simp add: autoSchedule_def nextMap_of_def idToTask_of_def Let_def)

text \<open>The maximum that \<^verbatim>\<open>autoSchedule\<close> takes over the predecessors.\<close>

lemma fold_latest_None:
  "fold (\<lambda>pid acc. case lk pid of None \<Rightarrow> acc
           | Some p \<Rightarrow> (let pend = parseDate z (end_t p)
                        in if num_gt pend acc then pend else acc)) ps None = None"
  by (induction ps) (simp_all add: Let_def split: option.splits)

lemma fold_latest_Some:
  "\<exists>L. fold (\<lambda>pid acc. case lk pid of None \<Rightarrow> acc
           | Some p \<Rightarrow> (let pend = parseDate z (end_t p)
                        in if num_gt pend acc then pend else acc)) ps (Some a) = Some L
     \<and> a \<le> L
     \<and> (\<forall>pid\<in>set ps. \<forall>p e. lk pid = Some p \<longrightarrow> parseDate z (end_t p) = Some e \<longrightarrow> e \<le> L)
     \<and> (L = a \<or> (\<exists>pid\<in>set ps. \<exists>p. lk pid = Some p \<and> parseDate z (end_t p) = Some L))"
proof (induction ps arbitrary: a)
  case Nil
  then show ?case by simp
next
  case (Cons q ps)
  let ?f = "\<lambda>pid acc. case lk pid of None \<Rightarrow> acc
           | Some p \<Rightarrow> (let pend = parseDate z (end_t p)
                        in if num_gt pend acc then pend else acc)"
  obtain a' where a': "?f q (Some a) = Some a'" and le: "a \<le> a'"
    and q: "\<forall>p e. lk q = Some p \<longrightarrow> parseDate z (end_t p) = Some e \<longrightarrow> e \<le> a'"
    and src: "a' = a \<or> (\<exists>p. lk q = Some p \<and> parseDate z (end_t p) = Some a')"
  proof (cases "lk q")
    case None
    then show ?thesis using that [of a] by simp
  next
    case (Some p)
    show ?thesis
    proof (cases "parseDate z (end_t p)")
      case None
      then show ?thesis using that [of a] Some by simp
    next
      case (Some e)
      show ?thesis
      proof (cases "a < e")
        case True
        then show ?thesis using that [of e] Some \<open>lk q = Some p\<close> by (simp add: Let_def)
      next
        case False
        then show ?thesis using that [of a] Some \<open>lk q = Some p\<close> by (simp add: Let_def)
      qed
    qed
  qed
  from Cons.IH [of a'] obtain L where L: "fold ?f ps (Some a') = Some L" "a' \<le> L"
    and r: "\<forall>pid\<in>set ps. \<forall>p e. lk pid = Some p \<longrightarrow> parseDate z (end_t p) = Some e \<longrightarrow> e \<le> L"
    and s: "L = a' \<or> (\<exists>pid\<in>set ps. \<exists>p. lk pid = Some p \<and> parseDate z (end_t p) = Some L)"
    by blast
  have 1: "fold ?f (q # ps) (Some a) = Some L"
    using a' L(1) by simp
  have 2: "a \<le> L" using le L(2) by simp
  have 3: "\<forall>pid\<in>set (q # ps). \<forall>p e. lk pid = Some p \<longrightarrow> parseDate z (end_t p) = Some e
             \<longrightarrow> e \<le> L"
  proof (intro ballI allI impI)
    fix pid p e
    assume pid: "pid \<in> set (q # ps)" and p: "lk pid = Some p"
      and e: "parseDate z (end_t p) = Some e"
    show "e \<le> L"
    proof (cases "pid = q")
      case True
      then have "e \<le> a'" using q p e by blast
      then show ?thesis using L(2) by simp
    next
      case False
      then have "pid \<in> set ps" using pid by simp
      then show ?thesis using r p e by blast
    qed
  qed
  have 4: "L = a \<or> (\<exists>pid\<in>set (q # ps). \<exists>p. lk pid = Some p \<and> parseDate z (end_t p) = Some L)"
  proof -
    from s show ?thesis
    proof
      assume "L = a'"
      with src show ?thesis by auto
    next
      assume "\<exists>pid\<in>set ps. \<exists>p. lk pid = Some p \<and> parseDate z (end_t p) = Some L"
      then show ?thesis by auto
    qed
  qed
  from 1 2 3 4 show ?case by blast
qed

lemma latest_Some:
  assumes "parseDate z (start_t t) = Some s"
  shows "\<exists>L. latest z lk t = Some L \<and> s \<le> L
     \<and> (\<forall>pid\<in>set (deps_t t). \<forall>p e. lk pid = Some p \<longrightarrow> parseDate z (end_t p) = Some e
           \<longrightarrow> e \<le> L)
     \<and> (L = s \<or> (\<exists>pid\<in>set (deps_t t). \<exists>p. lk pid = Some p
                     \<and> parseDate z (end_t p) = Some L))"
  unfolding latest_def assms by (rule fold_latest_Some)

text \<open>Printing and reading again, in a zone of fixed offset.\<close>

lemma reparse_addDays:
  assumes p: "parseDate (fixed_zone tz) s = Some L"
    and n: "parseDate (fixed_zone tz) (fmt (fixed_zone tz)
              (addDays (fixed_zone tz) (Some L) (Some k))) = Some n"
  shows "n = L + k * msPerDay"
proof -
  let ?z = "fixed_zone tz"
  from parseDate_fixed_Some [OF p] obtain d where d: "L = d * msPerDay - tz" by blast
  obtain c where c: "addDays ?z (Some L) (Some k) = Some c"
    using n by (cases "addDays ?z (Some L) (Some k)") simp_all
  then have "c = L + k * msPerDay"
    unfolding addDays_fixed by (auto dest: TimeClip_Some)
  then have c': "c = (d + k) * msPerDay - tz"
    using d by (simp add: algebra_simps)
  have "fmt ?z (Some c) = print_day (d + k)"
    unfolding c' by (rule fmt_midnight)
  then have "parseDate ?z (print_day (d + k)) = Some n"
    using n c by simp
  from parseDate_fixed_Some [OF this] obtain d' where "print_day (d + k) = ISO d'"
    "n = d' * msPerDay - tz" by blast
  then have "n = (d + k) * msPerDay - tz"
    by (auto dest: print_day_eq_ISO)
  then show ?thesis using d by (simp add: algebra_simps)
qed

lemma reparse_fmt:
  assumes "parseDate (fixed_zone tz) (fmt (fixed_zone tz) x) = Some v"
    and "x = parseDate (fixed_zone tz) s"
  shows "x = Some v"
proof -
  let ?z = "fixed_zone tz"
  obtain c where c: "x = Some c"
    using assms(1) by (cases x) simp_all
  then have "parseDate ?z s = Some c" using assms(2) by simp
  from parseDate_fixed_Some [OF this] obtain d where d: "c = d * msPerDay - tz" by blast
  have "fmt ?z (Some c) = print_day d"
    unfolding d by (rule fmt_midnight)
  then have "parseDate ?z (print_day d) = Some v"
    using assms(1) c by simp
  from parseDate_fixed_Some [OF this] obtain d' where "print_day d = ISO d'"
    "v = d' * msPerDay - tz" by blast
  then have "v = c" using d by (auto dest: print_day_eq_ISO)
  then show ?thesis using c by simp
qed

lemma diffInDays_Some:
  assumes "diffInDays (fixed_zone tz) (parseDate (fixed_zone tz) e) (parseDate (fixed_zone tz) s)
             = Some k"
  shows "\<exists>a b. parseDate (fixed_zone tz) s = Some a \<and> parseDate (fixed_zone tz) e = Some b
           \<and> b - a = k * msPerDay"
proof -
  let ?z = "fixed_zone tz"
  let ?pe = "parseDate ?z (fmt ?z (parseDate ?z e))"
  let ?ps = "parseDate ?z (fmt ?z (parseDate ?z s))"
  from assms obtain ms where ms: "num_minus ?pe ?ps = Some ms"
    and k: "k = Math_round_quot ms (1000 * 60 * 60 * 24)"
    by (auto simp: diffInDays_def Let_def Math_round_num_def)
  from ms obtain b a where b: "?pe = Some b" and a: "?ps = Some a" and m: "ms = b - a"
    by (auto simp: num_minus_def split: option.splits)
  have pb: "parseDate ?z e = Some b" using reparse_fmt [OF b] by simp
  have pa: "parseDate ?z s = Some a" using reparse_fmt [OF a] by simp
  from parseDate_fixed_Some [OF pb] obtain db where db: "b = db * msPerDay - tz" by blast
  from parseDate_fixed_Some [OF pa] obtain da where da: "a = da * msPerDay - tz" by blast
  have "ms = (db - da) * msPerDay"
    using m da db by (simp add: algebra_simps)
  then have "Math_round_quot ms msPerDay = db - da"
    using Math_round_quot_mult [OF msPerDay_pos, of "db - da"] by simp
  then have kd: "k = db - da" using k by (simp add: msPerDay_def)
  have "b - a = k * msPerDay"
    unfolding da db kd by (simp add: algebra_simps)
  then show ?thesis using pa pb by blast
qed

lemma clampDateStr_cases:
  "clampDateStr z s lo hi = lo \<and> num_lt (parseDate z s) (parseDate z lo)
   \<or> clampDateStr z s lo hi = hi \<and> num_gt (parseDate z s) (parseDate z hi)
   \<or> clampDateStr z s lo hi = s \<and> \<not> num_lt (parseDate z s) (parseDate z lo)
       \<and> \<not> num_gt (parseDate z s) (parseDate z hi)"
  by (simp add: clampDateStr_def Let_def)

lemma num_lt_Some: "num_lt a b \<Longrightarrow> \<exists>x y. a = Some x \<and> b = Some y \<and> x < y"
  by (cases a; cases b) simp_all

lemma num_gt_Some: "num_gt a b \<Longrightarrow> \<exists>x y. a = Some x \<and> b = Some y \<and> x > y"
  by (cases a; cases b) simp_all

text \<open>
  A date between the bounds that can be read is left alone; a clamped date, where it can
  be read, lies between the bounds that can be read, provided these are in order.
\<close>

lemma clampDateStr_between:
  assumes s: "parseDate z s = Some x"
    and lo: "\<And>a. parseDate z lo = Some a \<Longrightarrow> a \<le> x"
    and hi: "\<And>b. parseDate z hi = Some b \<Longrightarrow> x \<le> b"
  shows "clampDateStr z s lo hi = s"
proof -
  have "\<not> num_lt (parseDate z s) (parseDate z lo)"
    using s lo by (cases "parseDate z lo") auto
  moreover have "\<not> num_gt (parseDate z s) (parseDate z hi)"
    using s hi by (cases "parseDate z hi") auto
  ultimately show ?thesis by (simp add: clampDateStr_def Let_def)
qed

lemma clampDateStr_unreadable: "parseDate z s = None \<Longrightarrow> clampDateStr z s lo hi = s"
  by (simp add: clampDateStr_def Let_def)

lemma clampDateStr_upper:
  assumes c: "parseDate z (clampDateStr z s lo hi) = Some v" and b: "parseDate z hi = Some b"
    and lohi: "\<And>a. parseDate z lo = Some a \<Longrightarrow> a \<le> b"
  shows "v \<le> b"
  using clampDateStr_cases [of z s lo hi] c b lohi
  by (cases "parseDate z s") auto

lemma schedule_step_eq:
  "schedule_step z lo hi (nextMap_of tasks) (idToTask_of tasks) i (Inr nxt)
     = (case map_of (nextMap_of tasks) i of
          None \<Rightarrow> Inl TypeError
        | Some k \<Rightarrow>
            (if num_gt (latest z (look tasks nxt) (nxt ! k)) (parseDate z (start_t (nxt ! k)))
             then Inr (nxt[k := (nxt ! k)
                    \<lparr>start_t := clampDateStr z
                        (fmt z (addDays z (latest z (look tasks nxt) (nxt ! k)) (Some 0))) lo hi,
                     end_t := clampDateStr z
                        (fmt z (addDays z (latest z (look tasks nxt) (nxt ! k))
                           (diffInDays z (parseDate z (end_t (nxt ! k)))
                              (parseDate z (start_t (nxt ! k)))))) lo hi\<rparr>])
             else Inr nxt))"
  by (simp add: schedule_step_def latestEnd_schedule_latest Let_def split: option.splits)

text \<open>The task that a step moves.\<close>

lemma moved_task:
  fixes tz :: int
  defines "z \<equiv> fixed_zone tz"
  assumes ps: "parseDate z (start_t t) = Some s" and sL: "s < L"
    and p: "parseDate z (end_t p) = Some L" and pn: "p \<in> set nxt" and tn: "t \<in> set nxt"
    and bi: "bounds_inv z lo hi nxt"
    and t': "t' = t\<lparr>start_t := clampDateStr z (fmt z (addDays z (Some L) (Some 0))) lo hi,
                    end_t := clampDateStr z (fmt z (addDays z (Some L)
                       (diffInDays z (parseDate z (end_t t)) (parseDate z (start_t t))))) lo hi\<rparr>"
  shows "\<And>s'. parseDate z (start_t t') = Some s' \<Longrightarrow> s' = L"
    and "\<And>a s'. parseDate z lo = Some a \<Longrightarrow> parseDate z (start_t t') = Some s' \<Longrightarrow> a \<le> s'"
    and "\<And>b e'. parseDate z hi = Some b \<Longrightarrow> parseDate z (end_t t') = Some e' \<Longrightarrow> e' \<le> b"
    and "not_inverted z t \<Longrightarrow> not_inverted z t'"
proof -
  let ?ns = "fmt z (addDays z (Some L) (Some 0))"
  let ?du = "diffInDays z (parseDate z (end_t t)) (parseDate z (start_t t))"
  let ?ne = "fmt z (addDays z (Some L) ?du)"
  have lo_s: "a \<le> s" if "parseDate z lo = Some a" for a
    using bi that tn ps by (auto simp: bounds_inv_def)
  have L_hi: "L \<le> b" if "parseDate z hi = Some b" for b
    using bi that pn p by (auto simp: bounds_inv_def)
  have lohi: "a \<le> b" if "parseDate z lo = Some a" "parseDate z hi = Some b" for a b
    using lo_s [OF that(1)] L_hi [OF that(2)] sL by simp
  have st: "start_t t' = clampDateStr z ?ns lo hi" and en: "end_t t' = clampDateStr z ?ne lo hi"
    by (simp_all add: t')
  show B1: "s' = L" if "parseDate z (start_t t') = Some s'" for s'
  proof (cases "parseDate z ?ns")
    case None
    then show ?thesis using that by (simp add: st clampDateStr_unreadable)
  next
    case (Some n)
    have n: "n = L"
      using reparse_addDays [OF p [unfolded z_def] Some [unfolded z_def]] by simp
    have "clampDateStr z ?ns lo hi = ?ns"
    proof (rule clampDateStr_between [OF Some])
      fix a assume "parseDate z lo = Some a"
      then show "a \<le> n" using lo_s sL n by fastforce
    next
      fix b assume "parseDate z hi = Some b"
      then show "n \<le> b" using L_hi n by simp
    qed
    then show ?thesis using that Some n by (simp add: st)
  qed
  show "a \<le> s'" if "parseDate z lo = Some a" "parseDate z (start_t t') = Some s'" for a s'
    using B1 [OF that(2)] lo_s [OF that(1)] sL by simp
  show B2: "e' \<le> b" if "parseDate z hi = Some b" "parseDate z (end_t t') = Some e'" for b e'
    using that(2) unfolding en
    by (rule clampDateStr_upper [OF _ that(1)]) (simp add: lohi that(1))
  show "not_inverted z t'" if ni: "not_inverted z t"
    unfolding not_inverted_def
  proof (intro allI impI)
    fix s' e'
    assume s': "parseDate z (start_t t') = Some s'" and e': "parseDate z (end_t t') = Some e'"
    have sL': "s' = L" using B1 [OF s'] .
    consider (lo) "clampDateStr z ?ne lo hi = lo" "num_lt (parseDate z ?ne) (parseDate z lo)"
      | (hi) "clampDateStr z ?ne lo hi = hi" "num_gt (parseDate z ?ne) (parseDate z hi)"
      | (same) "clampDateStr z ?ne lo hi = ?ne"
      using clampDateStr_cases [of z ?ne lo hi] by blast
    then show "s' \<le> e'"
    proof cases
      case hi
      then have "parseDate z hi = Some e'" using e' en by simp
      then show ?thesis using L_hi sL' by simp
    next
      case same
      then have x: "parseDate z ?ne = Some e'" using e' en by simp
      then obtain k where k: "?du = Some k"
        by (cases ?du) simp_all
      from diffInDays_Some [OF k [unfolded z_def]] obtain a b
        where "parseDate z (start_t t) = Some a" "parseDate z (end_t t) = Some b"
          "b - a = k * msPerDay"
        unfolding z_def by blast
      then have "0 \<le> k * msPerDay" using ni by (auto simp: not_inverted_def)
      moreover have "e' = L + k * msPerDay"
        using reparse_addDays [OF p [unfolded z_def], of k e'] x k unfolding z_def by simp
      ultimately show ?thesis using sL' by simp
    next
      case lo
      then obtain x a where x: "parseDate z ?ne = Some x" and a: "parseDate z lo = Some a"
        and xa: "x < a"
        by (auto dest: num_lt_Some)
      then obtain k where k: "?du = Some k"
        by (cases ?du) simp_all
      from diffInDays_Some [OF k [unfolded z_def]] obtain a0 b0
        where "parseDate z (start_t t) = Some a0" "parseDate z (end_t t) = Some b0"
          "b0 - a0 = k * msPerDay"
        unfolding z_def by blast
      then have "0 \<le> k * msPerDay" using ni by (auto simp: not_inverted_def)
      moreover have "x = L + k * msPerDay"
        using reparse_addDays [OF p [unfolded z_def], of k x] x k unfolding z_def by simp
      ultimately have "L \<le> x" by simp
      then have False using xa lo_s [OF a] sL by simp
      then show ?thesis ..
    qed
  qed
qed

lemma bounds_inv_update:
  assumes bi: "bounds_inv z lo hi nxt"
    and 1: "\<And>a s. parseDate z lo = Some a \<Longrightarrow> parseDate z (start_t t') = Some s \<Longrightarrow> a \<le> s"
    and 2: "\<And>b e. parseDate z hi = Some b \<Longrightarrow> parseDate z (end_t t') = Some e \<Longrightarrow> e \<le> b"
  shows "bounds_inv z lo hi (nxt[k := t'])"
proof -
  have m: "t = t' \<or> t \<in> set nxt" if "t \<in> set (nxt[k := t'])" for t
    using that set_update_subset_insert [of nxt k t'] by auto
  show ?thesis
    unfolding bounds_inv_def
  proof (intro conjI allI impI ballI)
    fix a t s
    assume "parseDate z lo = Some a" "t \<in> set (nxt[k := t'])" "parseDate z (start_t t) = Some s"
    then show "a \<le> s" using m [of t] 1 bi by (auto simp: bounds_inv_def)
  next
    fix b t e
    assume "parseDate z hi = Some b" "t \<in> set (nxt[k := t'])" "parseDate z (end_t t) = Some e"
    then show "e \<le> b" using m [of t] 2 bi by (auto simp: bounds_inv_def)
  qed
qed

text \<open>What one step of the \<^verbatim>\<open>forEach\<close> does.\<close>

lemma schedule_step_core:
  fixes tz :: int
  defines "z \<equiv> fixed_zone tz"
  assumes len: "length nxt = length tasks" and k: "map_of (nextMap_of tasks) i = Some k"
    and bi: "bounds_inv z lo hi nxt"
  shows "\<exists>nxt'. schedule_step z lo hi (nextMap_of tasks) (idToTask_of tasks) i (Inr nxt)
                  = Inr nxt'
     \<and> length nxt' = length nxt \<and> (\<forall>j<length nxt. j \<noteq> k \<longrightarrow> nxt' ! j = nxt ! j)
     \<and> id_t (nxt' ! k) = id_t (nxt ! k) \<and> deps_t (nxt' ! k) = deps_t (nxt ! k)
     \<and> bounds_inv z lo hi nxt'
     \<and> (not_inverted z (nxt ! k) \<longrightarrow> not_inverted z (nxt' ! k))
     \<and> (\<forall>s'. parseDate z (start_t (nxt' ! k)) = Some s' \<longrightarrow>
          (\<forall>pid\<in>set (deps_t (nxt ! k)). \<forall>p e. look tasks nxt pid = Some p \<longrightarrow>
             parseDate z (end_t p) = Some e \<longrightarrow> e \<le> s'))"
proof -
  have kl: "k < length nxt" using nextMap_of_Some(1) [OF k] len by simp
  let ?t = "nxt ! k"
  let ?lk = "look tasks nxt"
  have tn: "?t \<in> set nxt" using kl by simp
  show ?thesis
  proof (cases "num_gt (latest z ?lk ?t) (parseDate z (start_t ?t))")
    case False
    have step: "schedule_step z lo hi (nextMap_of tasks) (idToTask_of tasks) i (Inr nxt)
                  = Inr nxt"
      using k False by (simp add: schedule_step_eq)
    have "e \<le> s'" if "parseDate z (start_t ?t) = Some s'" "pid \<in> set (deps_t ?t)"
      "?lk pid = Some p" "parseDate z (end_t p) = Some e" for s' pid p e
    proof -
      from latest_Some [OF that(1), of ?lk] obtain L where L: "latest z ?lk ?t = Some L"
        "s' \<le> L"
        and le: "\<forall>pid\<in>set (deps_t ?t). \<forall>p e. ?lk pid = Some p \<longrightarrow>
                    parseDate z (end_t p) = Some e \<longrightarrow> e \<le> L"
        by blast
      have "L = s'" using False L that(1) by simp
      then show ?thesis using le that by blast
    qed
    then show ?thesis using step bi by auto
  next
    case True
    then obtain L s where L: "latest z ?lk ?t = Some L"
      and s: "parseDate z (start_t ?t) = Some s" and sL: "s < L"
      by (auto dest: num_gt_Some)
    from latest_Some [OF s, of ?lk] L
    have le: "\<forall>pid\<in>set (deps_t ?t). \<forall>p e. ?lk pid = Some p \<longrightarrow>
                    parseDate z (end_t p) = Some e \<longrightarrow> e \<le> L"
      and src: "L = s \<or> (\<exists>pid\<in>set (deps_t ?t). \<exists>p. ?lk pid = Some p
                     \<and> parseDate z (end_t p) = Some L)"
      by auto
    from src sL obtain pid p where "?lk pid = Some p" and p: "parseDate z (end_t p) = Some L"
      by auto
    then obtain j where "j < length tasks" "p = nxt ! j"
      using look_Some by blast
    then have pn: "p \<in> set nxt" using len by simp
    define t' where "t' = ?t\<lparr>start_t := clampDateStr z (fmt z (addDays z (Some L) (Some 0))) lo hi,
                    end_t := clampDateStr z (fmt z (addDays z (Some L)
                       (diffInDays z (parseDate z (end_t ?t)) (parseDate z (start_t ?t))))) lo hi\<rparr>"
    note mt = moved_task [OF s [unfolded z_def] sL p [unfolded z_def] pn tn bi [unfolded z_def]
        t'_def [unfolded z_def], folded z_def]
    have step: "schedule_step z lo hi (nextMap_of tasks) (idToTask_of tasks) i (Inr nxt)
                  = Inr (nxt[k := t'])"
      using k True by (simp add: schedule_step_eq L t'_def)
    have b': "bounds_inv z lo hi (nxt[k := t'])"
      using bi mt(2) mt(3) by (rule bounds_inv_update)
    have "e \<le> s'" if "parseDate z (start_t t') = Some s'" "pid \<in> set (deps_t ?t)"
      "?lk pid = Some p" "parseDate z (end_t p) = Some e" for s' pid p e
      using mt(1) [OF that(1)] le that by blast
    moreover have "id_t t' = id_t ?t" "deps_t t' = deps_t ?t" by (simp_all add: t'_def)
    ultimately show ?thesis
      using step b' kl mt(4) by auto
  qed
qed

section \<open>Properties of the auto-scheduler\<close>

lemma bounds_inv_window:
  "bounds_inv (fixed_zone tz) (minDateStr (fixed_zone tz) now tasks)
     (maxDateStr (fixed_zone tz) now tasks) tasks"
  unfolding bounds_inv_def
proof (intro conjI allI impI ballI)
  fix a t s
  assume "parseDate (fixed_zone tz) (minDateStr (fixed_zone tz) now tasks) = Some a"
    "t \<in> set tasks" "parseDate (fixed_zone tz) (start_t t) = Some s"
  from minDateStr_lower [OF this] show "a \<le> s" using msPerDay_pos by simp
next
  fix b t e
  assume "parseDate (fixed_zone tz) (maxDateStr (fixed_zone tz) now tasks) = Some b"
    "t \<in> set tasks" "parseDate (fixed_zone tz) (end_t t) = Some e"
  from maxDateStr_upper [OF this] show "e \<le> b" using msPerDay_pos by simp
qed

lemma index_of_append_notin: "x \<notin> set xs \<Longrightarrow> index_of (xs @ x # ys) x = length xs"
  by (induction xs) (auto simp: index_of_def)

lemma edges_member:
  assumes "k < length tasks" "pid \<in> set (deps_t (tasks ! k))" "pid \<in> set (map id_t tasks)"
  shows "(pid, id_t (tasks ! k)) \<in> edges tasks"
proof -
  have "tasks ! k \<in> set tasks" using assms(1) by simp
  then show ?thesis
    unfolding edges_def edge_list_def using assms(2,3) by auto
qed

text \<open>A list in which every task is settled is left alone.\<close>

lemma settled_noop:
  assumes d: "distinct (map id_t r)" and k: "k < length r" and s: "settled z r k"
  shows "\<not> num_gt (latest z (look r r) (r ! k)) (parseDate z (start_t (r ! k)))"
proof (cases "parseDate z (start_t (r ! k))")
  case None
  then show ?thesis by simp
next
  case (Some s0)
  from latest_Some [OF Some, of "look r r"] obtain L
    where L: "latest z (look r r) (r ! k) = Some L"
      and src: "L = s0 \<or> (\<exists>pid\<in>set (deps_t (r ! k)). \<exists>p. look r r pid = Some p
                     \<and> parseDate z (end_t p) = Some L)"
    by blast
  have "L \<le> s0"
    using src
  proof
    assume "L = s0"
    then show ?thesis by simp
  next
    assume "\<exists>pid\<in>set (deps_t (r ! k)). \<exists>p. look r r pid = Some p
              \<and> parseDate z (end_t p) = Some L"
    then obtain pid p where pid: "pid \<in> set (deps_t (r ! k))" and p: "look r r pid = Some p"
      and e: "parseDate z (end_t p) = Some L" by blast
    from look_Some [OF p] obtain j where "j < length r" "id_t (r ! j) = pid" "p = r ! j"
      by blast
    then show ?thesis using s Some pid e unfolding settled_def by blast
  qed
  then show ?thesis using L Some by simp
qed

lemma schedule_settled:
  assumes d: "distinct (map id_t r)" and s: "\<forall>k<length r. settled z r k"
    and sub: "set order \<subseteq> set (map id_t r)"
  shows "fold (schedule_step z lo hi (nextMap_of r) (idToTask_of r)) order (Inr r) = Inr r"
  using sub
proof (induction order)
  case Nil
  then show ?case by simp
next
  case (Cons i order)
  then have i: "i \<in> set (map id_t r)" by simp
  then obtain k where k: "map_of (nextMap_of r) i = Some k"
    using nextMap_of_None [of r i] by (cases "map_of (nextMap_of r) i") simp_all
  have kl: "k < length r" using nextMap_of_Some(1) [OF k] .
  have "\<not> num_gt (latest z (look r r) (r ! k)) (parseDate z (start_t (r ! k)))"
    using d kl s by (intro settled_noop) simp_all
  then have "schedule_step z lo hi (nextMap_of r) (idToTask_of r) i (Inr r) = Inr r"
    using k by (simp add: schedule_step_eq)
  then show ?case using Cons by simp
qed

lemma settled_update_other:
  assumes k: "k < length nxt" and k': "k' \<noteq> k" and s: "settled z nxt k'"
    and it: "id_t t' = id_t (nxt ! k)" and n: "id_t (nxt ! k) \<notin> set (deps_t (nxt ! k'))"
  shows "settled z (nxt[k := t']) k'"
  unfolding settled_def
proof (intro ballI allI impI)
  fix s0 pid j e
  assume s0: "parseDate z (start_t (nxt[k := t'] ! k')) = Some s0"
    and pid: "pid \<in> set (deps_t (nxt[k := t'] ! k'))" and j: "j < length (nxt[k := t'])"
    and ij: "id_t (nxt[k := t'] ! j) = pid"
    and e: "parseDate z (end_t (nxt[k := t'] ! j)) = Some e"
  have s0': "parseDate z (start_t (nxt ! k')) = Some s0" using s0 k' by simp
  have pid': "pid \<in> set (deps_t (nxt ! k'))" using pid k' by simp
  have j': "j < length nxt" using j by simp
  have ij': "id_t (nxt ! j) = pid"
    using ij k it by (cases "j = k") simp_all
  have "j \<noteq> k" using ij' pid' n by auto
  then have "parseDate z (end_t (nxt ! j)) = Some e" using e by simp
  then show "e \<le> s0"
    using s s0' pid' j' ij' unfolding settled_def by blast
qed

lemma schedule_step_inv:
  fixes tz :: int
  defines "z \<equiv> fixed_zone tz"
  assumes d: "distinct (map id_t tasks)"
    and ord: "order = dn @ i # rest" and dord: "distinct order"
    and topo: "\<forall>e\<in>edges tasks. index_of order (fst e) < index_of order (snd e)"
    and i: "i \<in> set (map id_t tasks)"
    and inv: "sched_inv z tasks lo hi dn nxt"
  shows "\<exists>nxt'. schedule_step z lo hi (nextMap_of tasks) (idToTask_of tasks) i (Inr nxt)
                  = Inr nxt'
               \<and> sched_inv z tasks lo hi (dn @ [i]) nxt'"
proof -
  from inv have len: "length nxt = length tasks" and ids: "map id_t nxt = map id_t tasks"
    and deps: "map deps_t nxt = map deps_t tasks"
    and unch: "\<And>k. k < length tasks \<Longrightarrow> id_t (tasks ! k) \<notin> set dn \<Longrightarrow> nxt ! k = tasks ! k"
    and sett: "\<And>k. k < length tasks \<Longrightarrow> id_t (tasks ! k) \<in> set dn \<Longrightarrow> settled z nxt k"
    and bi: "bounds_inv z lo hi nxt"
    by (simp_all add: sched_inv_def)
  have idn: "id_t (nxt ! j) = id_t (tasks ! j)" if "j < length tasks" for j
    using that len ids by (metis nth_map)
  have depn: "deps_t (nxt ! j) = deps_t (tasks ! j)" if "j < length tasks" for j
    using that len deps by (metis nth_map)
  have uniq: "j = j'" if "j < length tasks" "j' < length tasks"
    "id_t (tasks ! j) = id_t (tasks ! j')" for j j'
    using that d by (auto simp: distinct_conv_nth)
  from i obtain k where k: "map_of (nextMap_of tasks) i = Some k"
    using nextMap_of_None [of tasks i] by (cases "map_of (nextMap_of tasks) i") simp_all
  have kl: "k < length tasks" and idk: "id_t (tasks ! k) = i"
    using nextMap_of_Some [OF k] by simp_all
  have ind: "i \<notin> set dn" using dord ord by simp
  have idx_i: "index_of order i = length dn"
    unfolding ord using ind by (rule index_of_append_notin)
  have idx_done: "index_of order y < length dn" if "y \<in> set dn" for y
    unfolding ord using that by (simp add: index_of_append_in index_of_less)
  have no_self: "pid \<noteq> i" if "pid \<in> set (deps_t (tasks ! k))" for pid
  proof
    assume "pid = i"
    then have "(i, i) \<in> edges tasks"
      using edges_member [OF kl that] i idk by simp
    then show False using topo by auto
  qed
  have no_succ: "i \<notin> set (deps_t (tasks ! k'))"
    if "k' < length tasks" "id_t (tasks ! k') \<in> set dn" for k'
  proof
    assume "i \<in> set (deps_t (tasks ! k'))"
    then have "(i, id_t (tasks ! k')) \<in> edges tasks"
      using edges_member [OF that(1) _ i] by simp
    then have "index_of order i < index_of order (id_t (tasks ! k'))"
      using topo by auto
    then show False using idx_i idx_done [OF that(2)] by simp
  qed
  from schedule_step_core [OF len k bi [unfolded z_def], folded z_def]
  obtain nxt' where step: "schedule_step z lo hi (nextMap_of tasks) (idToTask_of tasks) i
                             (Inr nxt) = Inr nxt'"
    and len': "length nxt' = length nxt"
    and other: "\<And>j. j < length nxt \<Longrightarrow> j \<noteq> k \<Longrightarrow> nxt' ! j = nxt ! j"
    and idk': "id_t (nxt' ! k) = id_t (nxt ! k)" and depk': "deps_t (nxt' ! k) = deps_t (nxt ! k)"
    and bi': "bounds_inv z lo hi nxt'"
    and pre: "\<And>s' pid p e. parseDate z (start_t (nxt' ! k)) = Some s' \<Longrightarrow>
                pid \<in> set (deps_t (nxt ! k)) \<Longrightarrow> look tasks nxt pid = Some p \<Longrightarrow>
                parseDate z (end_t p) = Some e \<Longrightarrow> e \<le> s'"
    by blast
  have upd: "nxt' = nxt[k := nxt' ! k]"
  proof (rule nth_equalityI)
    show "length nxt' = length (nxt[k := nxt' ! k])" using len' by simp
    fix j assume "j < length nxt'"
    then show "nxt' ! j = nxt[k := nxt' ! k] ! j"
      using other [of j] len' by (cases "j = k") simp_all
  qed
  have n1: "length nxt' = length tasks" using len len' by simp
  have idn': "id_t (nxt' ! j) = id_t (tasks ! j)" if "j < length tasks" for j
    using that idn [OF that] other [of j] idk' len by (cases "j = k") simp_all
  have depn': "deps_t (nxt' ! j) = deps_t (tasks ! j)" if "j < length tasks" for j
    using that depn [OF that] other [of j] depk' len by (cases "j = k") simp_all
  have n2: "map id_t nxt' = map id_t tasks"
    using n1 idn' by (intro nth_equalityI) simp_all
  have n3: "map deps_t nxt' = map deps_t tasks"
    using n1 depn' by (intro nth_equalityI) simp_all
  have n4: "nxt' ! k' = tasks ! k'"
    if "k' < length tasks" "id_t (tasks ! k') \<notin> set (dn @ [i])" for k'
  proof -
    have "k' \<noteq> k" using that(2) idk by auto
    then show ?thesis using unch [OF that(1)] that(2) other [of k'] that(1) len by simp
  qed
  have sk: "settled z nxt' k"
    unfolding settled_def
  proof (intro ballI allI impI)
    fix s0 pid j e
    assume s0: "parseDate z (start_t (nxt' ! k)) = Some s0"
      and pid: "pid \<in> set (deps_t (nxt' ! k))" and j: "j < length nxt'"
      and ij: "id_t (nxt' ! j) = pid" and e: "parseDate z (end_t (nxt' ! j)) = Some e"
    have jl: "j < length tasks" using j n1 by simp
    have pid': "pid \<in> set (deps_t (nxt ! k))" using pid depk' by simp
    then have "pid \<noteq> i" using depn [OF kl] no_self by simp
    then have jk: "j \<noteq> k" using ij idn' [OF kl] idk by auto
    have "id_t (tasks ! j) = pid" using ij idn' [OF jl] by simp
    then have "look tasks nxt pid = Some (nxt ! j)"
      using look_distinct [OF d jl, of nxt] by simp
    moreover have "parseDate z (end_t (nxt ! j)) = Some e"
      using e other [of j] jl len jk by simp
    ultimately show "e \<le> s0" using pre [OF s0 pid'] by simp
  qed
  have n5: "settled z nxt' k'"
    if "k' < length tasks" "id_t (tasks ! k') \<in> set (dn @ [i])" for k'
  proof (cases "k' = k")
    case True
    then show ?thesis using sk by simp
  next
    case False
    then have "id_t (tasks ! k') \<noteq> i" using uniq [OF that(1) kl] idk by auto
    then have dn: "id_t (tasks ! k') \<in> set dn" using that(2) by simp
    have "settled z (nxt[k := nxt' ! k]) k'"
    proof (rule settled_update_other)
      show "k < length nxt" using kl len by simp
      show "k' \<noteq> k" by (rule False)
      show "settled z nxt k'" using sett [OF that(1) dn] .
      show "id_t (nxt' ! k) = id_t (nxt ! k)" by (rule idk')
      show "id_t (nxt ! k) \<notin> set (deps_t (nxt ! k'))"
        using no_succ [OF that(1) dn] idn [OF kl] idk depn [OF that(1)] by simp
    qed
    then show ?thesis using upd by simp
  qed
  have "sched_inv z tasks lo hi (dn @ [i]) nxt'"
    unfolding sched_inv_def using n1 n2 n3 n4 n5 bi' by blast
  then show ?thesis using step by simp
qed

lemma fold_schedule_inv:
  fixes tz :: int
  defines "z \<equiv> fixed_zone tz"
  assumes d: "distinct (map id_t tasks)" and dord: "distinct order"
    and topo: "\<forall>e\<in>edges tasks. index_of order (fst e) < index_of order (snd e)"
    and sub: "set order \<subseteq> set (map id_t tasks)"
    and ord: "order = dn @ todo" and inv: "sched_inv z tasks lo hi dn nxt"
  shows "\<exists>r. fold (schedule_step z lo hi (nextMap_of tasks) (idToTask_of tasks)) todo (Inr nxt)
                = Inr r
             \<and> sched_inv z tasks lo hi order r"
  using ord inv
proof (induction todo arbitrary: dn nxt)
  case Nil
  then show ?case by simp
next
  case (Cons i rest)
  have i: "i \<in> set (map id_t tasks)" using sub Cons.prems(1) by auto
  obtain nxt' where s: "schedule_step z lo hi (nextMap_of tasks) (idToTask_of tasks) i (Inr nxt)
                           = Inr nxt'"
    and inv': "sched_inv z tasks lo hi (dn @ [i]) nxt'"
    using schedule_step_inv [OF d Cons.prems(1) dord topo i Cons.prems(2) [unfolded z_def]]
    unfolding z_def by blast
  have "order = (dn @ [i]) @ rest" using Cons.prems(1) by simp
  from Cons.IH [OF this inv'] show ?case by (simp add: s)
qed

lemma autoSchedule_settles:
  fixes tz :: int
  defines "z \<equiv> fixed_zone tz"
  assumes d: "distinct (map id_t tasks)" and a: "acyclic (edges tasks)"
    and bi: "bounds_inv z lo hi tasks"
  shows "\<exists>r. autoSchedule z lo hi tasks = Inr r \<and> map id_t r = map id_t tasks
             \<and> (\<forall>k<length r. settled z r k)"
proof -
  let ?order = "topoSort tasks"
  have m: "mset ?order = mset (map id_t tasks)"
    and topo: "\<forall>e\<in>edges tasks. index_of ?order (fst e) < index_of ?order (snd e)"
    using topoSort_acyclic [OF d a] by simp_all
  have dord: "distinct ?order" using m d by (metis mset_eq_imp_distinct_iff)
  have so: "set ?order = set (map id_t tasks)" using m by (rule mset_eq_setD)
  have init: "sched_inv z tasks lo hi [] tasks"
    using bi by (simp add: sched_inv_def)
  obtain r where r: "autoSchedule z lo hi tasks = Inr r"
    and inv: "sched_inv z tasks lo hi ?order r"
    using fold_schedule_inv [OF d dord topo _ _ init [unfolded z_def], of ?order] so
    unfolding z_def by (auto simp: autoSchedule_alt)
  from inv have len: "length r = length tasks" and ids: "map id_t r = map id_t tasks"
    and sett: "\<And>k. k < length tasks \<Longrightarrow> id_t (tasks ! k) \<in> set ?order \<Longrightarrow> settled z r k"
    by (simp_all add: sched_inv_def)
  have "settled z r k" if "k < length r" for k
  proof -
    have "k < length tasks" using that len by simp
    moreover from this have "id_t (tasks ! k) \<in> set ?order" unfolding so by simp
    ultimately show ?thesis by (rule sett)
  qed
  then show ?thesis using r ids by blast
qed

lemma autoSchedule_fixed:
  assumes d: "distinct (map id_t r)" and s: "\<forall>k<length r. settled z r k"
  shows "autoSchedule z lo hi r = Inr r"
  unfolding autoSchedule_alt using d s set_topoSort by (rule schedule_settled)

text \<open>
  C5. For every task list with unique ids whose resolvable-predecessor graph is acyclic,
  the auto-scheduler returns a list, and running it again on that list, with the window
  derived from that list, returns the same list. (The dates are arbitrary strings; the
  time zone has a fixed offset.)
\<close>

theorem runAutoSchedule_idempotent:
  assumes "distinct (map id_t tasks)" and "acyclic (edges tasks)"
  shows "\<exists>r. runAutoSchedule (fixed_zone tz) now tasks = Inr r
             \<and> runAutoSchedule (fixed_zone tz) now r = Inr r"
proof -
  obtain r where r: "runAutoSchedule (fixed_zone tz) now tasks = Inr r"
    and ids: "map id_t r = map id_t tasks"
    and s: "\<forall>k<length r. settled (fixed_zone tz) r k"
    using autoSchedule_settles [OF assms bounds_inv_window, of tz now]
    by (auto simp: runAutoSchedule_def)
  have "distinct (map id_t r)" using assms(1) ids by simp
  then have "runAutoSchedule (fixed_zone tz) now r = Inr r"
    unfolding runAutoSchedule_def using s by (rule autoSchedule_fixed)
  with r show ?thesis by blast
qed

theorem runAutoSchedule_idempotent_witness:
  "\<exists>r. runAutoSchedule (fixed_zone 0) 0
          [\<lparr>id_t = ''Y'', name_t = ''y'', start_t = ISO 2, end_t = ISO 6, color_t = None,
             deps_t = [''X'']\<rparr>,
           \<lparr>id_t = ''X'', name_t = ''x'', start_t = ISO 1, end_t = ISO 5, color_t = None,
             deps_t = []\<rparr>] = Inr r
      \<and> runAutoSchedule (fixed_zone 0) 0 r = Inr r"
proof -
  let ?ts = "[\<lparr>id_t = ''Y'', name_t = ''y'', start_t = ISO 2, end_t = ISO 6, color_t = None,
             deps_t = [''X'']\<rparr>,
           \<lparr>id_t = ''X'', name_t = ''x'', start_t = ISO 1, end_t = ISO 5, color_t = None,
             deps_t = []\<rparr>]"
  have e: "edges ?ts = {(''X'', ''Y'')}"
    by (simp add: edges_def edge_list_def)
  have "acyclic ({} :: (string \<times> string) set)"
    by (simp add: acyclic_def)
  then have a: "acyclic (edges ?ts)"
    unfolding e by simp
  have d: "distinct (map id_t ?ts)" by simp
  from runAutoSchedule_idempotent [OF d a] show ?thesis .
qed

section \<open>Properties of a drag\<close>


















section \<open>The minimum duration of a resized task\<close>





section \<open>The invariant that a task starts no later than it ends\<close>







section \<open>The violation set and the epoch\<close>

text \<open>
  When the ids are unique, the dates are well-formed and every task ends after the
  epoch, the code computes the violation set of the specification.
\<close>

lemma fold_insert_if:
  "fold (\<lambda>t m. if P t then insert (f t) m else m) ts m0 = m0 \<union> f ` {t \<in> set ts. P t}"
  by (induction ts arbitrary: m0) auto

lemma set_map_filter: "set (List.map_filter f xs) = {y. \<exists>x\<in>set xs. f x = Some y}"
  by (induction xs) (auto simp: List.map_filter_def)

lemma fold_latest_violations:
  assumes tz: "\<bar>tz\<bar> \<le> msPerDay"
    and wf: "\<forall>p\<in>set (List.map_filter lk ps). wellformed (end_t p)"
  shows "fold (\<lambda>pid acc.
           case lk pid of
             None \<Rightarrow> acc
           | Some p \<Rightarrow> (let pend = parseDate (fixed_zone tz) (end_t p)
                        in if num_gt pend acc then pend else acc))
     ps (Some a)
   = Some (Max (insert a ((\<lambda>p. day_of (end_t p) * msPerDay - tz)
                            ` set (List.map_filter lk ps))))"
  using wf
proof (induction ps arbitrary: a)
  case Nil
  then show ?case by (simp add: List.map_filter_def)
next
  case (Cons pid ps)
  show ?case
  proof (cases "lk pid")
    case None
    then have "List.map_filter lk (pid # ps) = List.map_filter lk ps"
      by (simp add: List.map_filter_def)
    then show ?thesis using None Cons by simp
  next
    case (Some p)
    then have mf: "List.map_filter lk (pid # ps) = p # List.map_filter lk ps"
      by (simp add: List.map_filter_def)
    let ?B = "(\<lambda>p. day_of (end_t p) * msPerDay - tz) ` set (List.map_filter lk ps)"
    let ?e = "day_of (end_t p) * msPerDay - tz"
    have pe: "parseDate (fixed_zone tz) (end_t p) = Some ?e"
      using Cons.prems mf by (intro parseDate_wellformed [OF tz]) simp
    have wf': "\<forall>p\<in>set (List.map_filter lk ps). wellformed (end_t p)"
      using Cons.prems mf by simp
    let ?f = "\<lambda>pid acc.
           case lk pid of
             None \<Rightarrow> acc
           | Some p \<Rightarrow> (let pend = parseDate (fixed_zone tz) (end_t p)
                        in if num_gt pend acc then pend else acc)"
    have "?f pid (Some a) = Some (max ?e a)"
      using Some pe by (simp add: Let_def max_def)
    then have "fold ?f (pid # ps) (Some a) = fold ?f ps (Some (max ?e a))"
      by simp
    also have "\<dots> = Some (Max (insert (max ?e a) ?B))"
      by (rule Cons.IH [OF wf'])
    also have "Max (insert (max ?e a) ?B) = Max (insert a (insert ?e ?B))"
      by (cases "?B = {}") (simp_all add: max.commute max.left_commute)
    also have "insert ?e ?B
                 = (\<lambda>p. day_of (end_t p) * msPerDay - tz) ` set (List.map_filter lk (pid # ps))"
      unfolding mf by simp
    finally show ?thesis .
  qed
qed

lemma idToTask_resolved:
  assumes "distinct (map id_t tasks)"
  shows "set (List.map_filter (map_of (new_Map (map (\<lambda>t. (id_t t, t)) tasks))) (deps_t t))
           = set (resolvable_preds tasks t)"
proof -
  have d: "distinct (map fst (rev (map (\<lambda>t. (id_t t, t)) tasks)))"
    using assms by (simp add: rev_map [symmetric] comp_def)
  have "map_of (new_Map (map (\<lambda>t. (id_t t, t)) tasks)) pid = Some p
          \<longleftrightarrow> p \<in> set tasks \<and> id_t p = pid" for pid p
    unfolding map_of_new_Map map_of_eq_Some_iff [OF d] by auto
  then show ?thesis
    unfolding set_map_filter resolvable_preds_def by auto
qed

lemma violations_after_epoch:
  assumes tz: "\<bar>tz\<bar> \<le> msPerDay" and d: "distinct (map id_t tasks)"
    and wf: "\<forall>t\<in>set tasks. wellformed_task t"
    and pos: "\<forall>p\<in>set tasks. 0 < day_of (end_t p) * msPerDay - tz"
  shows "violations (fixed_zone tz) tasks = spec_violations tasks"
proof -
  let ?z = "fixed_zone tz"
  let ?m = "new_Map (map (\<lambda>t. (id_t t, t)) tasks)"
  let ?i = "\<lambda>s. day_of s * msPerDay - tz"
  have iff: "(num_gt (latestEnd_violations ?z ?m t) (Some 0)
                \<and> num_lt (parseDate ?z (start_t t)) (latestEnd_violations ?z ?m t))
               \<longleftrightarrow> spec_violated tasks t" if t: "t \<in> set tasks" for t
  proof -
    let ?R = "set (resolvable_preds tasks t)"
    let ?B = "(\<lambda>p. ?i (end_t p)) ` ?R"
    have Rsub: "?R \<subseteq> set tasks" by (auto simp: resolvable_preds_def)
    have wfR: "\<forall>p\<in>set (List.map_filter (map_of ?m) (deps_t t)). wellformed (end_t p)"
      unfolding idToTask_resolved [OF d] using wf Rsub by (auto simp: wellformed_task_def)
    have L: "latestEnd_violations ?z ?m t = Some (Max (insert 0 ?B))"
      unfolding latestEnd_violations_def fold_latest_violations [OF tz wfR]
        idToTask_resolved [OF d] ..
    have ps: "parseDate ?z (start_t t) = Some (?i (start_t t))"
      using wf t by (intro parseDate_wellformed [OF tz]) (simp add: wellformed_task_def)
    have Bpos: "0 < b" if "b \<in> ?B" for b
      using that pos Rsub by auto
    show ?thesis
    proof (cases "resolvable_preds tasks t = []")
      case True
      then show ?thesis by (simp add: L spec_violated_def)
    next
      case False
      then have ne: "?B \<noteq> {}" by simp
      from False obtain p0 where "p0 \<in> ?R"
        by (cases "resolvable_preds tasks t") auto
      then have "?i (end_t p0) \<in> ?B" by (rule imageI)
      then obtain b0 where b0: "b0 \<in> ?B" by blast
      have fin: "finite (insert 0 ?B)" and ne0: "insert 0 ?B \<noteq> {}" by simp_all
      have "\<exists>b\<in>insert 0 ?B. 0 < b" using Bpos [OF b0] b0 by blast
      then have A: "0 < Max (insert 0 ?B)"
        unfolding Max_gr_iff [OF fin ne0] .
      have B: "?i (start_t t) < Max (insert 0 ?B)
                 \<longleftrightarrow> (\<exists>p\<in>?R. day_of (start_t t) < day_of (end_t p))"
      proof -
        have "(\<exists>b\<in>insert 0 ?B. ?i (start_t t) < b) \<longleftrightarrow> (\<exists>b\<in>?B. ?i (start_t t) < b)"
        proof
          assume "\<exists>b\<in>insert 0 ?B. ?i (start_t t) < b"
          then consider "?i (start_t t) < 0" | "\<exists>b\<in>?B. ?i (start_t t) < b"
            by blast
          then show "\<exists>b\<in>?B. ?i (start_t t) < b"
          proof cases
            case 1
            then have "?i (start_t t) < b0" using Bpos [OF b0] by simp
            then show ?thesis using b0 by blast
          next
            case 2
            then show ?thesis .
          qed
        next
          assume "\<exists>b\<in>?B. ?i (start_t t) < b"
          then show "\<exists>b\<in>insert 0 ?B. ?i (start_t t) < b" by blast
        qed
        also have "\<dots> \<longleftrightarrow> (\<exists>p\<in>?R. day_of (start_t t) < day_of (end_t p))"
          by (simp add: midnight_less_iff)
        finally show ?thesis
          unfolding Max_gr_iff [OF fin ne0] .
      qed
      have C: "day_of (start_t t)
                 < Max (set (map (\<lambda>p. day_of (end_t p)) (resolvable_preds tasks t)))
               \<longleftrightarrow> (\<exists>p\<in>?R. day_of (start_t t) < day_of (end_t p))"
      proof -
        have "finite (set (map (\<lambda>p. day_of (end_t p)) (resolvable_preds tasks t)))"
          and "set (map (\<lambda>p. day_of (end_t p)) (resolvable_preds tasks t)) \<noteq> {}"
          using False by simp_all
        from Max_gr_iff [OF this] show ?thesis by simp
      qed
      show ?thesis
        unfolding L ps spec_violated_def num_gt_simps num_lt_simps
        by (simp only: A B C False simp_thms)
    qed
  qed
  have "violations ?z tasks
          = id_t ` {t \<in> set tasks. num_gt (latestEnd_violations ?z ?m t) (Some 0)
                      \<and> num_lt (parseDate ?z (start_t t)) (latestEnd_violations ?z ?m t)}"
    unfolding violations_def Let_def
    using fold_insert_if [where f = id_t and ts = tasks and ?m0.0 = "{}"
        and P = "\<lambda>t. num_gt (latestEnd_violations ?z ?m t) (Some 0)
                      \<and> num_lt (parseDate ?z (start_t t)) (latestEnd_violations ?z ?m t)"]
    by simp
  also have "\<dots> = id_t ` {t \<in> set tasks. spec_violated tasks t}"
    using iff by blast
  finally show ?thesis
    by (simp add: spec_violations_def)
qed

text \<open>
  C1 says that a task is in the violation set exactly when it starts before the greatest
  end of its resolvable predecessors. The code starts the maximum at \<^verbatim>\<open>new Date(0)\<close>
  and takes a maximum still at the epoch for "no resolvable predecessor", so it misses
  every violation whose predecessors all end on or before 1970-01-01. Task \<open>B\<close> below
  starts on 1960-01-05, before its predecessor \<open>A\<close> ends on 1960-01-10: the claim puts
  \<open>B\<close> in the violation set, the code returns the empty set.
\<close>

theorem violations_before_epoch:
  "violations (fixed_zone 0)
     [\<lparr>id_t = ''A'', name_t = ''a'', start_t = ISO (ymd 1960 1 1), end_t = ISO (ymd 1960 1 10),
        color_t = None, deps_t = []\<rparr>,
      \<lparr>id_t = ''B'', name_t = ''b'', start_t = ISO (ymd 1960 1 5), end_t = ISO (ymd 1960 1 8),
        color_t = None, deps_t = [''A'']\<rparr>] = {}
   \<and> spec_violations
     [\<lparr>id_t = ''A'', name_t = ''a'', start_t = ISO (ymd 1960 1 1), end_t = ISO (ymd 1960 1 10),
        color_t = None, deps_t = []\<rparr>,
      \<lparr>id_t = ''B'', name_t = ''b'', start_t = ISO (ymd 1960 1 5), end_t = ISO (ymd 1960 1 8),
        color_t = None, deps_t = [''A'']\<rparr>] = {''B''}"
  by (simp add: violations_def latestEnd_violations_def new_Map_def Let_def
      spec_violations_def spec_violated_def resolvable_preds_def parseDate_def fixed_zone_def
      TimeClip_def wellformed_def day_of_def ymd_def msPerDay_def)

end
